theory Spec2Isabelle
  imports Main "HOL-Library.Sublist"
begin

section \<open>The document model of package kvg\<close>

text \<open>
  The Go structs \<^verbatim>\<open>Path\<close>, \<^verbatim>\<open>Text\<close>, \<^verbatim>\<open>Child\<close>, \<^verbatim>\<open>Group\<close> and \<^verbatim>\<open>SVG\<close>.
  A Go \<^verbatim>\<open>string\<close> and a \<^verbatim>\<open>[]byte\<close> are byte sequences, here \<open>string\<close>.
  The \<^verbatim>\<open>XMLName\<close> fields and the \<^verbatim>\<open>Parent\<close> back pointers (tagged \<^verbatim>\<open>xml:"-"\<close>)
  are read by none of the functions modelled below and are left out.

  \<^verbatim>\<open>Child\<close> is not a sum type in the source: it is a struct that holds a \<^verbatim>\<open>Path\<close>, a
  \<^verbatim>\<open>Group\<close> and a \<^verbatim>\<open>Text\<close> side by side, with the two flags \<^verbatim>\<open>IsGroup\<close> and
  \<^verbatim>\<open>IsText\<close>. The model keeps all five fields.

  A record cannot be recursive, so the scalar fields of \<^verbatim>\<open>Group\<close> form the record
  \<open>GroupAttrs\<close> and \<open>Group\<close> is the datatype that pairs them with the
  \<^verbatim>\<open>Children\<close> slice.
\<close>

record Path =
  Path_ID :: string
  Path_Type :: string
  Path_D :: string
  Path_Class :: string

record Text =
  Text_Transform :: string
  Text_Content :: string
  Text_Class :: string

record GroupAttrs =
  ID :: string
  Element :: string
  Part :: string
  Variant :: bool
  Number :: string
  Original :: string
  Partial :: bool
  TradForm :: string
  Position :: string
  Radical :: string
  Phon :: string
  RadicalForm :: string
  Style :: string

datatype Group = MkGroup (Attrs: GroupAttrs) (Children: "Child list")
  and Child = MkChild (Path: Path) (Group: Group) (Text: Text) (IsGroup: bool) (IsText: bool)

record SVG =
  XMLNS :: string
  Width :: string
  Height :: string
  ViewBox :: string
  Groups :: "Group list"

text \<open>The zero values of the structs, as \<^verbatim>\<open>var c Child\<close> makes them.\<close>

definition zeroPath :: Path where
  "zeroPath = \<lparr>Path_ID = [], Path_Type = [], Path_D = [], Path_Class = []\<rparr>"

definition zeroText :: Text where
  "zeroText = \<lparr>Text_Transform = [], Text_Content = [], Text_Class = []\<rparr>"

definition zeroAttrs :: GroupAttrs where
  "zeroAttrs = \<lparr>ID = [], Element = [], Part = [], Variant = False, Number = [],
     Original = [], Partial = False, TradForm = [], Position = [], Radical = [], Phon = [],
     RadicalForm = [], Style = []\<rparr>"

definition zeroGroup :: Group where
  "zeroGroup = MkGroup zeroAttrs []"

text \<open>
  The three kinds of child that \<^verbatim>\<open>Group.UnmarshalXML\<close> appends: it fills one of the
  three struct fields of a zero \<^verbatim>\<open>Child\<close> and sets the two flags.
\<close>

definition groupChild :: "Group \<Rightarrow> Child" where
  "groupChild g = MkChild zeroPath g zeroText True False"

definition pathChild :: "Path \<Rightarrow> Child" where
  "pathChild p = MkChild p zeroGroup zeroText False False"

definition textChild :: "Text \<Rightarrow> Child" where
  "textChild t = MkChild zeroPath zeroGroup t False True"

text \<open>
  How the process can stop instead of returning: a run-time panic of an index or a slice
  expression, or \<^verbatim>\<open>log.Fatalf\<close>, which prints the message and calls \<^verbatim>\<open>os.Exit(1)\<close>.
  None of the functions below has an error result in its Go signature.
\<close>

datatype error = IndexOutOfRange | SliceBoundsOutOfRange | FatalExit string

section \<open>Formatting of counters\<close>

text \<open>
  \<^verbatim>\<open>fmt.Sprintf("%d", n)\<close> for a counter: the decimal digits, no leading zero. The
  counters are \<^verbatim>\<open>int64\<close> (and \<^verbatim>\<open>int\<close> for a slice index) that start at 0 and grow by
  one per node visited, so they stay far from the wrap-around and are modelled by \<open>nat\<close>.
\<close>

fun showNat :: "nat \<Rightarrow> string" where
  "showNat n = (if n < 10 then [''0123456789'' ! n]
                else showNat (n div 10) @ [''0123456789'' ! (n mod 10)])"

declare showNat.simps [simp del]

section \<open>The renumbering walk\<close>

text \<open>
  The two identifier formats, \<^verbatim>\<open>fmt.Sprintf("%s-g%d", base, n)\<close> and
  \<^verbatim>\<open>fmt.Sprintf("%s-s%d", base, n)\<close>.
\<close>

definition groupID :: "string \<Rightarrow> nat \<Rightarrow> string" where
  "groupID base n = base @ ''-g'' @ showNat n"

definition pathID :: "string \<Rightarrow> nat \<Rightarrow> string" where
  "pathID base n = base @ ''-s'' @ showNat n"

text \<open>
  \<^verbatim>\<open>renumber(child, base, nPathPtr, nGroupPtr)\<close>. The two counters behind the pointers
  are threaded as the pair \<open>(nPath, nGroup)\<close>; the child is updated in place in the
  source and returned here. A child that is not a group takes the second branch, whatever
  its \<^verbatim>\<open>IsText\<close> flag says. \<open>renumberChildren\<close> is the loop
  \<^verbatim>\<open>for i := range children { renumber(&children[i], ...) }\<close>.
\<close>

fun renumber :: "string \<Rightarrow> Child \<Rightarrow> nat \<times> nat \<Rightarrow> Child \<times> (nat \<times> nat)"
  and renumberChildren :: "string \<Rightarrow> Child list \<Rightarrow> nat \<times> nat \<Rightarrow> Child list \<times> (nat \<times> nat)"
where
  "renumber base (MkChild p (MkGroup a cs) t isg ist) (nPath, nGroup) =
     (if isg then
        (let nGroup1 = nGroup + 1;
             a1 = a\<lparr>ID := groupID base nGroup1\<rparr>;
             (cs1, st1) = renumberChildren base cs (nPath, nGroup1)
         in (MkChild p (MkGroup a1 cs1) t isg ist, st1))
      else
        (let nPath1 = nPath + 1
         in (MkChild (p\<lparr>Path_ID := pathID base nPath1\<rparr>) (MkGroup a cs) t isg ist,
             (nPath1, nGroup))))"
| "renumberChildren base [] st = ([], st)"
| "renumberChildren base (c # cs) st =
     (let (c1, st1) = renumber base c st;
          (cs1, st2) = renumberChildren base cs st1
      in (c1 # cs1, st2))"

section \<open>Field updates through pointers\<close>

text \<open>
  The source writes fields through pointers into the tree. The model returns the updated
  value; these helpers are the assignments \<^verbatim>\<open>g.ID = s\<close>, \<^verbatim>\<open>g.Style = s\<close>,
  \<^verbatim>\<open>g.Children = cs\<close> and \<^verbatim>\<open>c.Group = g\<close>.
\<close>

definition setID :: "string \<Rightarrow> Group \<Rightarrow> Group" where
  "setID s g = MkGroup ((Attrs g)\<lparr>ID := s\<rparr>) (Children g)"

definition setStyle :: "string \<Rightarrow> Group \<Rightarrow> Group" where
  "setStyle s g = MkGroup ((Attrs g)\<lparr>Style := s\<rparr>) (Children g)"

definition setChildren :: "Child list \<Rightarrow> Group \<Rightarrow> Group" where
  "setChildren cs g = MkGroup (Attrs g) cs"

definition setChildGroup :: "Group \<Rightarrow> Child \<Rightarrow> Child" where
  "setChildGroup g c = MkChild (Path c) g (Text c) (IsGroup c) (IsText c)"

text \<open>
  \<open>updGroup i f\<close> applies an update to \<^verbatim>\<open>kvg.Groups[i]\<close>; every caller checks the
  index first, as the Go run time does. \<open>updBaseGroup f\<close> applies an update to
  \<^verbatim>\<open>kvg.Groups[0].Children[0].Group\<close>, the struct that the pointer returned by
  \<^verbatim>\<open>BaseGroup()\<close> points to.
\<close>

definition updGroup :: "nat \<Rightarrow> (Group \<Rightarrow> Group) \<Rightarrow> SVG \<Rightarrow> SVG" where
  "updGroup i f kvg = kvg\<lparr>Groups := (Groups kvg)[i := f (Groups kvg ! i)]\<rparr>"

definition updFirstChildGroup :: "(Group \<Rightarrow> Group) \<Rightarrow> Group \<Rightarrow> Group" where
  "updFirstChildGroup f g =
     (case Children g of
        [] \<Rightarrow> g
      | c # cs \<Rightarrow> setChildren (setChildGroup (f (Group c)) c # cs) g)"

definition updBaseGroup :: "(Group \<Rightarrow> Group) \<Rightarrow> SVG \<Rightarrow> SVG" where
  "updBaseGroup f kvg = updGroup 0 (updFirstChildGroup f) kvg"

section \<open>The base group\<close>

text \<open>
  \<^verbatim>\<open>return &kvg.Groups[0].Children[0].Group\<close>: two index expressions, each of which
  panics out of range, and then the \<^verbatim>\<open>Group\<close> field of the first child. The flags of
  that child are not read.
\<close>

definition BaseGroup :: "SVG \<Rightarrow> error + Group" where
  "BaseGroup kvg =
     (case Groups kvg of
        [] \<Rightarrow> Inl IndexOutOfRange
      | g # _ \<Rightarrow>
          (case Children g of
             [] \<Rightarrow> Inl IndexOutOfRange
           | c # _ \<Rightarrow> Inr (Group c)))"

text \<open>\<^verbatim>\<open>strings.Replace(s, old, new, 1)\<close> for a non-empty \<^verbatim>\<open>old\<close>: the first occurrence.\<close>

fun replaceFirst :: "string \<Rightarrow> string \<Rightarrow> string \<Rightarrow> string" where
  "replaceFirst old new [] = []"
| "replaceFirst old new (c # s) =
     (if prefix old (c # s) then new @ drop (length old) (c # s)
      else c # replaceFirst old new s)"

definition Base :: "SVG \<Rightarrow> error + (string \<times> string)" where
  "Base kvg =
     (case BaseGroup kvg of
        Inl e \<Rightarrow> Inl e
      | Inr baseGroup \<Rightarrow>
          (let base = ID (Attrs baseGroup)
           in Inr (base, replaceFirst ''kvg:'' [] base)))"

section \<open>SetBase\<close>

text \<open>
  The text that \<^verbatim>\<open>log.Fatalf("Base name '%s' does not start with 'kvg:'", base)\<close>
  prints; byte \<open>0x27\<close> is the apostrophe.
\<close>

definition fatalBaseName :: "string \<Rightarrow> string" where
  "fatalBaseName base =
     ''Base name '' @ [CHR 0x27] @ base @ [CHR 0x27] @ '' does not start with '' @
     [CHR 0x27] @ ''kvg:'' @ [CHR 0x27]"

text \<open>
  \<^verbatim>\<open>base[0:4]\<close> panics when \<^verbatim>\<open>base\<close> has fewer than four bytes; \<^verbatim>\<open>log.Fatalf\<close>
  ends the process; \<^verbatim>\<open>BaseGroup()\<close> may panic; then the assignments and the walk over
  the children of the base group with fresh counters.
\<close>

definition SetBase :: "SVG \<Rightarrow> string \<Rightarrow> error + SVG" where
  "SetBase kvg base =
     (if length base < 4 then Inl SliceBoundsOutOfRange
      else if take 4 base \<noteq> ''kvg:'' then Inl (FatalExit (fatalBaseName base))
      else
        (case BaseGroup kvg of
           Inl e \<Rightarrow> Inl e
         | Inr baseGroup \<Rightarrow>
             (let kvg1 = updBaseGroup (setID base) kvg;
                  tail = drop 4 base;
                  kvg2 = updGroup 0 (setID (''kvg:StrokePaths_'' @ tail)) kvg1;
                  kvg3 = (if length (Groups kvg2) > 1
                          then updGroup 1 (setID (''kvg:StrokeNumbers_'' @ tail)) kvg2
                          else kvg2);
                  (cs, st) = renumberChildren base (Children baseGroup) (0, 0)
              in Inr (updBaseGroup (setChildren cs) kvg3))))"

section \<open>Labels and styles\<close>

text \<open>
  \<^verbatim>\<open>RenumberLabels\<close>: \<^verbatim>\<open>labels := kvg.Groups[1]\<close> panics when there is no second group.
  The copy \<^verbatim>\<open>labels\<close> shares the backing array of its \<^verbatim>\<open>Children\<close> slice with
  \<^verbatim>\<open>kvg.Groups[1]\<close>, and \<^verbatim>\<open>c := &labels.Children[i]\<close> points into that array, so the
  assignment to \<^verbatim>\<open>c.Text.Content\<close> changes the document. The log line for a child that
  is not a text is not modelled.
\<close>

fun renumberLabelsFrom :: "nat \<Rightarrow> Child list \<Rightarrow> Child list" where
  "renumberLabelsFrom i [] = []"
| "renumberLabelsFrom i (c # cs) =
     (if \<not> IsText c then c
      else MkChild (Path c) (Group c) ((Text c)\<lparr>Text_Content := showNat (i + 1)\<rparr>)
             (IsGroup c) (IsText c))
     # renumberLabelsFrom (i + 1) cs"

definition RenumberLabels :: "SVG \<Rightarrow> error + SVG" where
  "RenumberLabels kvg =
     (if length (Groups kvg) < 2 then Inl IndexOutOfRange
      else Inr (updGroup 1 (\<lambda>labels. setChildren (renumberLabelsFrom 0 (Children labels)) labels) kvg))"

text \<open>
  \<^verbatim>\<open>removeChildStyles(g)\<close>. The loop is \<^verbatim>\<open>for _, child := range c\<close>: the loop variable
  \<^verbatim>\<open>child\<close> is a copy of the slice element \<^verbatim>\<open>c[i]\<close>, a struct value.
  \<^verbatim>\<open>child.Group.Style = ""\<close> assigns to the copy, and the recursive call receives
  \<^verbatim>\<open>&child.Group\<close>, the address of the copy's group. The copy shares with the element
  only the backing arrays of the \<^verbatim>\<open>Children\<close> slices below it, and the function has no
  assignment to an element of a slice (compare \<^verbatim>\<open>&child.Group.Children[i]\<close> in
  \<^verbatim>\<open>renumber\<close> and \<^verbatim>\<open>&labels.Children[i]\<close> in \<^verbatim>\<open>RenumberLabels\<close>), so no element
  is ever written. The function returns the group that \<^verbatim>\<open>g\<close> points to after the call.
  In the definition \<open>child2\<close> is the loop variable after the assignment and \<open>child1\<close>
  the loop variable at the end of the iteration; the iteration leaves the element
  \<open>elem\<close> as it is.

  The recursion is on the group of the copy, so termination needs the three facts about
  the size of a group that precede the definition.
\<close>

lemma size_Group_child [termination_simp]:
  "child \<in> set c \<Longrightarrow> size (Group child) < Suc (size_list size c)"
  by (induction c) (auto, (case_tac child; simp))

lemma Children_setStyle [simp]: "Children (setStyle s g) = Children g"
  by (simp add: setStyle_def)

lemma Group_setChildGroup [simp]: "Group (setChildGroup g c) = g"
  by (simp add: setChildGroup_def)

lemma size_setStyle [simp]: "size (setStyle s g) = size g"
  by (cases g) (simp add: setStyle_def)

function removeChildStyles :: "Group \<Rightarrow> Group" where
  "removeChildStyles (MkGroup a c) =
     MkGroup a
       (map (\<lambda>elem.
          let child = elem;
              child1 =
                (if IsGroup child then
                   (let child2 = setChildGroup (setStyle [] (Group child)) child
                    in setChildGroup (removeChildStyles (Group child2)) child2)
                 else child)
          in elem) c)"
  by pat_completeness auto
termination
  by (relation "measure size") (auto simp: size_Group_child)

definition strokeStyle :: string where
  "strokeStyle = ''fill:none;stroke:#000000;stroke-width:3;stroke-linecap:round;stroke-linejoin:round;''"

definition labelStyle :: string where
  "labelStyle = ''font-size:8;fill:#808080''"

text \<open>\<^verbatim>\<open>SetStyle\<close>: two indexed assignments, each of which panics out of range.\<close>

definition SetStyle :: "SVG \<Rightarrow> error + SVG" where
  "SetStyle svg =
     (if length (Groups svg) < 1 then Inl IndexOutOfRange
      else
        (let svg1 = updGroup 0 (setStyle strokeStyle) svg
         in if length (Groups svg1) < 2 then Inl IndexOutOfRange
            else
              (let svg2 = updGroup 1 (setStyle labelStyle) svg1
               in Inr (updGroup 0 removeChildStyles svg2))))"

section \<open>RenumberXML and MakeXML\<close>

definition RenumberXML :: "SVG \<Rightarrow> error + SVG" where
  "RenumberXML svg =
     (case BaseGroup svg of
        Inl e \<Rightarrow> Inl e
      | Inr baseGroup \<Rightarrow>
          (let base = ID (Attrs baseGroup);
               (cs, st) = renumberChildren base (Children baseGroup) (0, 0);
               svg1 = updBaseGroup (setChildren cs) svg
           in (case RenumberLabels svg1 of
                 Inl e \<Rightarrow> Inl e
               | Inr svg2 \<Rightarrow> SetStyle svg2)))"

text \<open>
  \<^verbatim>\<open>strings.Replace(s, old, new, -1)\<close> for a non-empty \<^verbatim>\<open>old\<close>: every occurrence, found
  from left to right without overlap.
\<close>

function replaceAll :: "string \<Rightarrow> string \<Rightarrow> string \<Rightarrow> string" where
  "replaceAll old new [] = []"
| "replaceAll old new (c # s) =
     (if old \<noteq> [] \<and> prefix old (c # s)
      then new @ replaceAll old new (drop (length old) (c # s))
      else c # replaceAll old new s)"
  by pat_completeness auto
termination
  by (relation "measure (\<lambda>(old, new, s). length s)") auto

text \<open>
  \<^verbatim>\<open>fixXML\<close>. \<^verbatim>\<open>Heading\<close> is a package variable that callers assign (the
  \<^verbatim>\<open>strip\<close> tool does), so it is an argument here. The tab is byte 9 and the newline
  byte 10.
\<close>

definition fixXML :: "string \<Rightarrow> string \<Rightarrow> string" where
  "fixXML Heading xmlout =
     (let tab = [CHR 0x09];
          outFixed = replaceAll ''></path>'' ''/>'' xmlout;
          outFixed = replaceAll (tab @ ''<g'') ''<g'' outFixed;
          outFixed = replaceAll (tab @ ''<g'') ''<g'' outFixed;
          outFixed = replaceAll (tab @ tab @ ''<path'') ''<path'' outFixed;
          outFixed = replaceAll (tab @ ''<text'') ''<text'' outFixed;
          outFixed = replaceAll (tab @ ''</g>'') ''</g>'' outFixed;
          outFixed = replaceAll (tab @ ''</g>'') ''</g>'' outFixed
      in Heading @ outFixed @ [CHR 0x0A])"

text \<open>
  \<^verbatim>\<open>MakeXML\<close>. \<^verbatim>\<open>xml.MarshalIndent\<close> belongs to the Go standard library and is an
  argument of the model: it returns the bytes or an error text. The document is
  renumbered in place first, so the result holds the renumbered document and the bytes.
\<close>

definition MakeXML :: "(SVG \<Rightarrow> string + string) \<Rightarrow> string \<Rightarrow> SVG \<Rightarrow> error + (SVG \<times> string)" where
  "MakeXML MarshalIndent Heading kanjivg =
     (case RenumberXML kanjivg of
        Inl e \<Rightarrow> Inl e
      | Inr kanjivg1 \<Rightarrow>
          (case MarshalIndent kanjivg1 of
             Inl err \<Rightarrow> Inl (FatalExit (''Error marshalling: '' @ err @ [CHR 0x0A]))
           | Inr output \<Rightarrow> Inr (kanjivg1, fixXML Heading output)))"

section \<open>FindMultiElement\<close>

text \<open>
  The source returns chains of pointers into the tree. A \<^verbatim>\<open>*Group\<close> that points into
  the tree below the queried group is modelled by its address: the indices of the
  children that lead from the queried group to it. \<open>[]\<close> is the queried group itself
  and \<open>a @ [i]\<close> is \<^verbatim>\<open>&g.Children[i].Group\<close> for the group \<open>g\<close> at address \<open>a\<close>.
\<close>

type_synonym gptr = "nat list"

text \<open>
  \<^verbatim>\<open>multiSearch(depth, pos, gp, funky, locs, debug)\<close>. \<^verbatim>\<open>depth\<close> and \<^verbatim>\<open>debug\<close> only
  drive printing and are left out; \<open>gp\<close> is the address of the group and the group
  itself is the third argument. \<^verbatim>\<open>pos\<close> is a local slice: the callee appends to its own
  slice header, and every chain is copied when it is stored, so value semantics is
  exact. \<open>multiSearchRange\<close> is the loop over \<^verbatim>\<open>gp.Children\<close> from index \<open>i\<close> on; note
  that \<^verbatim>\<open>pos = append(pos, gPtr)\<close> stays in force for the rest of the loop.
\<close>

fun multiSearch :: "gptr list \<Rightarrow> gptr \<Rightarrow> Group \<Rightarrow> string \<Rightarrow> gptr list list \<Rightarrow> gptr list list"
  and multiSearchRange ::
    "gptr list \<Rightarrow> gptr \<Rightarrow> nat \<Rightarrow> Child list \<Rightarrow> string \<Rightarrow> gptr list list \<Rightarrow> gptr list list"
where
  "multiSearch pos gp (MkGroup a cs) funky locs =
     multiSearchRange (pos @ [gp]) gp 0 cs funky locs"
| "multiSearchRange pos gp i [] funky locs = locs"
| "multiSearchRange pos gp i (MkChild p g t isg ist # rest) funky locs =
     (if \<not> isg then multiSearchRange pos gp (i + 1) rest funky locs
      else
        (let gPtr = gp @ [i]
         in if Element (Attrs g) \<noteq> funky
            then multiSearchRange pos gp (i + 1) rest funky (multiSearch pos gPtr g funky locs)
            else
              (let pos1 = pos @ [gPtr]
               in multiSearchRange pos1 gp (i + 1) rest funky (locs @ [pos1]))))"

definition FindMultiElement :: "Group \<Rightarrow> string \<Rightarrow> gptr list list" where
  "FindMultiElement gp funky = multiSearch [] [] gp funky []"

section \<open>File names\<close>

text \<open>
  The patterns are values of \<^verbatim>\<open>regexp.MustCompile\<close>. A pattern is modelled by its
  syntax tree and matched by a backtracking matcher that lists the ways to match at the
  start of the input in the order of preference of Go's \<^verbatim>\<open>regexp\<close> (leftmost-first:
  a greedy \<^verbatim>\<open>*\<close> and \<^verbatim>\<open>?\<close> try the longer alternative first). Each way is the rest of
  the input and the capture groups recorded so far. The loop of a star only continues
  after an iteration that consumed input; the starred patterns used here always do.
\<close>

datatype re =
    Chr char
  | Cls "char list"
  | AnyNoNL
  | Eot
  | Seq re re
  | Opt re
  | Star re
  | Cap nat re

type_synonym caps = "(nat \<times> string) list"

function matchRe :: "re \<Rightarrow> string \<Rightarrow> caps \<Rightarrow> (string \<times> caps) list" where
  "matchRe (Chr x) s c = (case s of [] \<Rightarrow> [] | y # s1 \<Rightarrow> if y = x then [(s1, c)] else [])"
| "matchRe (Cls xs) s c = (case s of [] \<Rightarrow> [] | y # s1 \<Rightarrow> if y \<in> set xs then [(s1, c)] else [])"
| "matchRe AnyNoNL s c = (case s of [] \<Rightarrow> [] | y # s1 \<Rightarrow> if y \<noteq> CHR 0x0A then [(s1, c)] else [])"
| "matchRe Eot s c = (if s = [] then [(s, c)] else [])"
| "matchRe (Seq r1 r2) s c = concat (map (\<lambda>(s1, c1). matchRe r2 s1 c1) (matchRe r1 s c))"
| "matchRe (Opt r) s c = matchRe r s c @ [(s, c)]"
| "matchRe (Star r) s c =
     concat (map (\<lambda>(s1, c1). if length s1 < length s then matchRe (Star r) s1 c1 else [])
               (matchRe r s c)) @ [(s, c)]"
| "matchRe (Cap n r) s c =
     map (\<lambda>(s1, c1). (s1, (n, take (length s - length s1) s) # c1)) (matchRe r s c)"
  by pat_completeness auto
termination
  by (relation "measures [\<lambda>(r, s, c). size r, \<lambda>(r, s, c). length s]") auto

text \<open>
  \<^verbatim>\<open>FindStringSubmatch\<close>: the leftmost position at which the pattern matches, and there
  the preferred way. \<open>None\<close> is the empty result; a group that took no part in the match
  reads as the empty string.
\<close>

fun FindStringSubmatch :: "re \<Rightarrow> string \<Rightarrow> caps option" where
  "FindStringSubmatch r s =
     (case matchRe r s [] of
        (rest, c) # _ \<Rightarrow> Some c
      | [] \<Rightarrow> (case s of [] \<Rightarrow> None | _ # s1 \<Rightarrow> FindStringSubmatch r s1))"

definition submatch :: "caps \<Rightarrow> nat \<Rightarrow> string" where
  "submatch c n = (case map_of c n of None \<Rightarrow> [] | Some x \<Rightarrow> x)"

definition hexDigits :: "char list" where
  "hexDigits = ''0123456789abcdef''"

definition letters :: "char list" where
  "letters = ''ABCDEFGHIJKLMNOPQRSTUVWXYZabcdefghijklmnopqrstuvwxyz''"

definition alnums :: "char list" where
  "alnums = ''ABCDEFGHIJKLMNOPQRSTUVWXYZabcdefghijklmnopqrstuvwxyz0123456789''"

text \<open>\<^verbatim>\<open>hexID = "([0-9a-f]{5})"\<close>, here without its capture group.\<close>

definition hex5 :: re where
  "hex5 = Seq (Cls hexDigits) (Seq (Cls hexDigits) (Seq (Cls hexDigits)
            (Seq (Cls hexDigits) (Cls hexDigits))))"

text \<open>
  \<^verbatim>\<open>filePartRe = "(?:.*/)?(" + hexID + "(?:-([A-Za-z][A-Za-z0-9]*))?)\\.svg$"\<close>:
  group 1 is the codepoint with its suffix, group 2 the codepoint, group 3 the suffix
  token.
\<close>

definition filePartRe :: re where
  "filePartRe =
     Seq (Opt (Seq (Star AnyNoNL) (Chr CHR ''/'')))
       (Seq (Cap 1 (Seq (Cap 2 hex5)
                      (Opt (Seq (Chr CHR ''-'') (Cap 3 (Seq (Cls letters) (Star (Cls alnums))))))))
          (Seq (Chr CHR ''.'') (Seq (Chr CHR ''s'') (Seq (Chr CHR ''v'') (Seq (Chr CHR ''g'') Eot)))))"

text \<open>
  \<^verbatim>\<open>HexIDToNum\<close>: \<^verbatim>\<open>strconv.ParseInt(hexID, 16, 64)\<close>, and \<^verbatim>\<open>die\<close> (which ends the
  process) on its error. The model reads an optional sign and hexadecimal digits of
  either case and fails on anything else and on a value outside 64 bits.
\<close>

definition hexDigitVal :: "char \<Rightarrow> int option" where
  "hexDigitVal c =
     map_of (zip ''0123456789abcdefABCDEF''
       [0, 1, 2, 3, 4, 5, 6, 7, 8, 9, 10, 11, 12, 13, 14, 15, 10, 11, 12, 13, 14, 15]) c"

fun hexDigitsVal :: "int \<Rightarrow> string \<Rightarrow> int option" where
  "hexDigitsVal acc [] = Some acc"
| "hexDigitsVal acc (c # s) =
     (case hexDigitVal c of None \<Rightarrow> None | Some d \<Rightarrow> hexDigitsVal (16 * acc + d) s)"

definition ParseIntHex :: "string \<Rightarrow> int option" where
  "ParseIntHex s =
     (let neg = (s \<noteq> [] \<and> hd s = CHR ''-'');
          digits = (if s \<noteq> [] \<and> (hd s = CHR ''-'' \<or> hd s = CHR ''+'') then tl s else s)
      in if digits = [] then None
         else
           (case hexDigitsVal 0 digits of
              None \<Rightarrow> None
            | Some v \<Rightarrow>
                (let n = (if neg then - v else v)
                 in if - (2 ^ 63) \<le> n \<and> n < 2 ^ 63 then Some n else None)))"

definition HexIDToNum :: "string \<Rightarrow> error + int" where
  "HexIDToNum hexID =
     (case ParseIntHex hexID of
        None \<Rightarrow> Inl (FatalExit ''Error parsing hex number'')
      | Some num \<Rightarrow> Inr num)"

definition FileToParts :: "string \<Rightarrow> error + (string \<times> int \<times> string)" where
  "FileToParts fileName =
     (case FindStringSubmatch filePartRe fileName of
        None \<Rightarrow> Inr ([], 0, [])
      | Some match \<Rightarrow>
          (case HexIDToNum (submatch match 2) of
             Inl e \<Rightarrow> Inl e
           | Inr num \<Rightarrow> Inr (submatch match 1, num, submatch match 3)))"

text \<open>
  The tokens of \<^verbatim>\<open>Variant\<close>, the pattern that "matches most of the variant endings",
  in the order of the source (two tokens occur twice there). No function of the package
  uses \<^verbatim>\<open>Variant\<close>.
\<close>

definition variantTokens :: "string list" where
  "variantTokens =
     [''Kaisho'', ''MidFst'', ''HzLst'', ''VtLst'', ''HzFstLeRi'', ''HzFstRiLe'', ''TenLst'',
      ''Hyougai'', ''Jinmei'', ''HzFst'', ''VtFstRiLe'', ''LeFst'', ''Vt6'', ''VtFstRiLe'',
      ''HzFst'', ''HzFstVtLst'', ''MdLst'', ''VtFst'', ''Vt4'', ''Ten3'', ''DgLst'', ''Insatsu'',
      ''MdFst'', ''MdFst2'', ''Dg3'', ''TenFst'', ''RiLe'', ''NoDot'']"

section \<open>Observations used to state the properties\<close>

subsection \<open>The renumbering walk\<close>

text \<open>
  The groups below a list of children in document order (a group before its own
  children), the paths in document order (children tagged neither group nor text), and
  whether a text child occurs anywhere below.
\<close>

fun groupsInOrderC :: "Child \<Rightarrow> Group list"
  and groupsInOrderCs :: "Child list \<Rightarrow> Group list"
where
  "groupsInOrderC (MkChild p (MkGroup a cs) t isg ist) =
     (if isg then MkGroup a cs # groupsInOrderCs cs else [])"
| "groupsInOrderCs [] = []"
| "groupsInOrderCs (c # cs) = groupsInOrderC c @ groupsInOrderCs cs"

fun pathsInOrderC :: "Child \<Rightarrow> Path list"
  and pathsInOrderCs :: "Child list \<Rightarrow> Path list"
where
  "pathsInOrderC (MkChild p (MkGroup a cs) t isg ist) =
     (if isg then pathsInOrderCs cs else if ist then [] else [p])"
| "pathsInOrderCs [] = []"
| "pathsInOrderCs (c # cs) = pathsInOrderC c @ pathsInOrderCs cs"

fun noTextC :: "Child \<Rightarrow> bool"
  and noTextCs :: "Child list \<Rightarrow> bool"
where
  "noTextC (MkChild p (MkGroup a cs) t isg ist) = (if isg then noTextCs cs else \<not> ist)"
| "noTextCs [] = True"
| "noTextCs (c # cs) = (noTextC c \<and> noTextCs cs)"

definition groupsInOrder :: "Group \<Rightarrow> Group list" where
  "groupsInOrder g = groupsInOrderCs (Children g)"

definition pathsInOrder :: "Group \<Rightarrow> Path list" where
  "pathsInOrder g = pathsInOrderCs (Children g)"

definition noTextBelow :: "Group \<Rightarrow> bool" where
  "noTextBelow g = noTextCs (Children g)"

text \<open>\<open>numbered f m n\<close> is the list \<open>f (m + 1), \<dots>, f n\<close>.\<close>

definition numbered :: "(nat \<Rightarrow> string) \<Rightarrow> nat \<Rightarrow> nat \<Rightarrow> string list" where
  "numbered f m n = map (\<lambda>k. f (Suc k)) [m..<n]"

text \<open>
  \<open>walkNumbers base b b'\<close>: the groups below \<open>b'\<close> carry, in document order, the
  identifiers \<open>base-g1, base-g2, \<dots>\<close> and the paths \<open>base-s1, base-s2, \<dots>\<close>, as many as
  there are groups and paths below \<open>b\<close>.
\<close>

definition walkNumbers :: "string \<Rightarrow> Group \<Rightarrow> Group \<Rightarrow> bool" where
  "walkNumbers base b b' \<longleftrightarrow>
     map (\<lambda>g. ID (Attrs g)) (groupsInOrder b') = map (groupID base) [1..<Suc (length (groupsInOrder b))] \<and>
     map Path_ID (pathsInOrder b') = map (pathID base) [1..<Suc (length (pathsInOrder b))]"

definition pathIDsOf :: "error + SVG \<Rightarrow> string list" where
  "pathIDsOf r =
     (case r of
        Inl e \<Rightarrow> []
      | Inr kvg \<Rightarrow> (case BaseGroup kvg of Inl e \<Rightarrow> [] | Inr b \<Rightarrow> map Path_ID (pathsInOrder b)))"

text \<open>
  The style attributes of the groups below the first top-level group of a result, in
  document order.
\<close>

definition stylesBelowFirst :: "error + SVG \<Rightarrow> string list" where
  "stylesBelowFirst r =
     (case r of
        Inl e \<Rightarrow> []
      | Inr kvg \<Rightarrow>
          (case Groups kvg of
             [] \<Rightarrow> []
           | g # gs \<Rightarrow> map (\<lambda>g. Style (Attrs g)) (groupsInOrder g)))"

text \<open>
  Whether a call hands control back to its caller. \<open>Inl\<close> is a panic or
  \<^verbatim>\<open>os.Exit\<close>: no Go function modelled here has an error result.
\<close>

definition returnsToCaller :: "error + 'a \<Rightarrow> bool" where
  "returnsToCaller r = (case r of Inl e \<Rightarrow> False | Inr v \<Rightarrow> True)"

subsection \<open>Shapes and identifiers\<close>

text \<open>
  The shape of a tree of children: for each child its tag and, for a group, the shapes of
  its children. \<open>idsC\<close> reads the identifiers that the walk assigns: the identifier of
  a group with those of its children, and the path identifier of any other child.
  \<open>walkShape\<close> is the walk as the specification words it, on a shape alone.
\<close>

datatype shape = PathShape | TextShape | GroupShape "shape list"

fun shapeC :: "Child \<Rightarrow> shape"
  and shapeCs :: "Child list \<Rightarrow> shape list"
where
  "shapeC (MkChild p (MkGroup a cs) t isg ist) =
     (if isg then GroupShape (shapeCs cs) else if ist then TextShape else PathShape)"
| "shapeCs [] = []"
| "shapeCs (c # cs) = shapeC c # shapeCs cs"

datatype idtree = LeafID string | GroupIDs string "idtree list"

fun idsC :: "Child \<Rightarrow> idtree"
  and idsCs :: "Child list \<Rightarrow> idtree list"
where
  "idsC (MkChild p (MkGroup a cs) t isg ist) =
     (if isg then GroupIDs (ID a) (idsCs cs) else LeafID (Path_ID p))"
| "idsCs [] = []"
| "idsCs (c # cs) = idsC c # idsCs cs"

fun walkShape :: "string \<Rightarrow> shape \<Rightarrow> nat \<times> nat \<Rightarrow> idtree \<times> (nat \<times> nat)"
  and walkShapes :: "string \<Rightarrow> shape list \<Rightarrow> nat \<times> nat \<Rightarrow> idtree list \<times> (nat \<times> nat)"
where
  "walkShape base PathShape (np, ng) = (LeafID (pathID base (np + 1)), (np + 1, ng))"
| "walkShape base TextShape (np, ng) = (LeafID (pathID base (np + 1)), (np + 1, ng))"
| "walkShape base (GroupShape ss) (np, ng) =
     (let (ts, st) = walkShapes base ss (np, ng + 1)
      in (GroupIDs (groupID base (ng + 1)) ts, st))"
| "walkShapes base [] st = ([], st)"
| "walkShapes base (s # ss) st =
     (let (t, st1) = walkShape base s st;
          (ts, st2) = walkShapes base ss st1
      in (t # ts, st2))"

definition baseShape :: "SVG \<Rightarrow> shape list option" where
  "baseShape kvg = (case BaseGroup kvg of Inl e \<Rightarrow> None | Inr b \<Rightarrow> Some (shapeCs (Children b)))"

definition baseIDs :: "SVG \<Rightarrow> (string \<times> idtree list) option" where
  "baseIDs kvg =
     (case BaseGroup kvg of Inl e \<Rightarrow> None | Inr b \<Rightarrow> Some (ID (Attrs b), idsCs (Children b)))"

subsection \<open>The frame of the renumbering operations\<close>

text \<open>
  The frame of the renumbering operations. \<open>eraseSVG\<close> blanks the fields that they may
  write: the identifier and the style attribute of every group (the top-level groups and
  every \<^verbatim>\<open>Group\<close> field below them), the identifier of every path field, and the
  content of the text children of the second top-level group. Everything else stays: the
  attributes of the document, the number and order of the groups and of all children, the
  two flags of every child, and every other attribute of groups, paths and texts.
\<close>

fun eraseC :: "Child \<Rightarrow> Child"
  and eraseCs :: "Child list \<Rightarrow> Child list"
where
  "eraseC (MkChild p (MkGroup a cs) t isg ist) =
     MkChild (p\<lparr>Path_ID := []\<rparr>) (MkGroup (a\<lparr>ID := [], Style := []\<rparr>) (eraseCs cs)) t isg ist"
| "eraseCs [] = []"
| "eraseCs (c # cs) = eraseC c # eraseCs cs"

definition eraseG :: "Group \<Rightarrow> Group" where
  "eraseG g = MkGroup ((Attrs g)\<lparr>ID := [], Style := []\<rparr>) (eraseCs (Children g))"

definition eraseLabelText :: "Child \<Rightarrow> Child" where
  "eraseLabelText c =
     (if IsText c
      then MkChild (Path c) (Group c) ((Text c)\<lparr>Text_Content := []\<rparr>) (IsGroup c) (IsText c)
      else c)"

definition eraseLabels :: "Group \<Rightarrow> Group" where
  "eraseLabels g =
     MkGroup ((Attrs g)\<lparr>ID := [], Style := []\<rparr>) (map eraseLabelText (eraseCs (Children g)))"

fun eraseGroups :: "Group list \<Rightarrow> Group list" where
  "eraseGroups [] = []"
| "eraseGroups [g0] = [eraseG g0]"
| "eraseGroups (g0 # g1 # gs) = eraseG g0 # eraseLabels g1 # map eraseG gs"

definition eraseSVG :: "SVG \<Rightarrow> SVG" where
  "eraseSVG kvg = kvg\<lparr>Groups := eraseGroups (Groups kvg)\<rparr>"

subsection \<open>Matches and chains of FindMultiElement\<close>

text \<open>
  \<open>allMatches\<close> lists, in document order, the addresses of the groups strictly below
  the queried group whose element name is the given one. \<open>FindAllByElement_spec\<close>
  follows the words of the specification: every group of the subtree of the queried
  group (the queried group included) whose element name is the given one, in document
  order, each with its chain of ancestors from the queried group down to the match. The
  chain of ancestors of the group at address \<open>m\<close> is \<open>prefixes m\<close>.
\<close>

fun allMatches :: "gptr \<Rightarrow> Group \<Rightarrow> string \<Rightarrow> gptr list"
  and allMatchesRange :: "gptr \<Rightarrow> nat \<Rightarrow> Child list \<Rightarrow> string \<Rightarrow> gptr list"
where
  "allMatches gp (MkGroup a cs) name = allMatchesRange gp 0 cs name"
| "allMatchesRange gp i [] name = []"
| "allMatchesRange gp i (MkChild p g t isg ist # rest) name =
     (if isg
      then (if Element (Attrs g) = name then [gp @ [i]] else []) @ allMatches (gp @ [i]) g name
      else [])
     @ allMatchesRange gp (i + 1) rest name"

definition FindAllByElement_spec :: "Group \<Rightarrow> string \<Rightarrow> gptr list list" where
  "FindAllByElement_spec g name =
     map prefixes ((if Element (Attrs g) = name then [[]] else []) @ allMatches [] g name)"

text \<open>
  \<open>unshadowed A m\<close>: no address of \<open>A\<close> is a proper ancestor of \<open>m\<close>.
\<close>

definition unshadowed :: "gptr list \<Rightarrow> gptr \<Rightarrow> bool" where
  "unshadowed A m \<longleftrightarrow> (\<forall>p\<in>set A. \<not> strict_prefix p m)"

text \<open>
  \<open>topMatches\<close> is the search without the accumulators: it lists a matching group and
  does not look below it. \<open>below gp m\<close> lists the addresses from just below \<open>gp\<close> down
  to \<open>m\<close>.
\<close>

fun topMatches :: "gptr \<Rightarrow> Group \<Rightarrow> string \<Rightarrow> gptr list"
  and topMatchesRange :: "gptr \<Rightarrow> nat \<Rightarrow> Child list \<Rightarrow> string \<Rightarrow> gptr list"
where
  "topMatches gp (MkGroup a cs) name = topMatchesRange gp 0 cs name"
| "topMatchesRange gp i [] name = []"
| "topMatchesRange gp i (MkChild p g t isg ist # rest) name =
     (if isg
      then (if Element (Attrs g) = name then [gp @ [i]] else topMatches (gp @ [i]) g name)
      else [])
     @ topMatchesRange gp (i + 1) rest name"

definition below :: "gptr \<Rightarrow> gptr \<Rightarrow> gptr list" where
  "below gp m = map ((@) gp) (tl (prefixes (drop (length gp) m)))"

text \<open>
  \<open>matchedBefore cs j name\<close>: one of the first \<open>j\<close> children of \<open>cs\<close> is a group with
  the element name. \<open>noEarlierMatch g name m\<close>: the address \<open>m\<close> leads through the tree
  below \<open>g\<close>, and in no group on the way from \<open>g\<close> down to the parent of \<open>m\<close> does a group
  with the element name stand before the child that the way takes.
\<close>

definition matchedBefore :: "Child list \<Rightarrow> nat \<Rightarrow> string \<Rightarrow> bool" where
  "matchedBefore cs j name \<longleftrightarrow>
     (\<exists>c\<in>set (take j cs). IsGroup c \<and> Element (Attrs (Group c)) = name)"

fun noEarlierMatch :: "Group \<Rightarrow> string \<Rightarrow> gptr \<Rightarrow> bool" where
  "noEarlierMatch g name [] = True"
| "noEarlierMatch g name (j # rel) =
     (j < length (Children g) \<and> \<not> matchedBefore (Children g) j name \<and>
      noEarlierMatch (Group (Children g ! j)) name rel)"

subsection \<open>The grammar of file names\<close>

text \<open>
  The grammar that \<^verbatim>\<open>filePartRe\<close> is compared with: a codepoint of five lowercase
  hexadecimal digits, a suffix token (a letter followed by letters and digits), and a
  suffix that is empty or \<^verbatim>\<open>-\<close> followed by a token. The four parts of the pattern
  are named for the proofs, and \<open>capFree\<close> holds of a pattern without capture groups.
\<close>

definition isHexID :: "string \<Rightarrow> bool" where
  "isHexID h \<longleftrightarrow> length h = 5 \<and> set h \<subseteq> set hexDigits"

definition isToken :: "string \<Rightarrow> bool" where
  "isToken t \<longleftrightarrow> t \<noteq> [] \<and> hd t \<in> set letters \<and> set (tl t) \<subseteq> set alnums"

definition isSuffix :: "string \<Rightarrow> bool" where
  "isSuffix suf \<longleftrightarrow> suf = [] \<or> (hd suf = CHR ''-'' \<and> isToken (tl suf))"

definition tokenRe :: re where
  "tokenRe = Seq (Cls letters) (Star (Cls alnums))"

definition svgEndRe :: re where
  "svgEndRe = Seq (Chr CHR ''.'') (Seq (Chr CHR ''s'') (Seq (Chr CHR ''v'') (Seq (Chr CHR ''g'') Eot)))"

definition nameRe :: re where
  "nameRe = Cap 1 (Seq (Cap 2 hex5) (Opt (Seq (Chr CHR ''-'') (Cap 3 tokenRe))))"

definition dirRe :: re where
  "dirRe = Opt (Seq (Star AnyNoNL) (Chr CHR ''/''))"

fun capFree :: "re \<Rightarrow> bool" where
  "capFree (Seq r1 r2) = (capFree r1 \<and> capFree r2)"
| "capFree (Opt r) = capFree r"
| "capFree (Star r) = capFree r"
| "capFree (Cap n r) = False"
| "capFree r = True"

section \<open>Example documents\<close>

text \<open>
  The documents at which the properties are evaluated. \<open>svgOf\<close> gives a list of
  top-level groups the attributes of a KanjiVG file; \<open>groupOf\<close>, \<open>styledGroup\<close> and
  \<open>elemGroup\<close> build a group with an identifier, with an identifier and a style, and
  with an element name.
\<close>

definition svgOf :: "Group list \<Rightarrow> SVG" where
  "svgOf gs = \<lparr>XMLNS = ''http://www.w3.org/2000/svg'', Width = ''109'', Height = ''109'',
     ViewBox = ''0 0 109 109'', Groups = gs\<rparr>"

definition groupOf :: "string \<Rightarrow> Child list \<Rightarrow> Group" where
  "groupOf i cs = MkGroup (zeroAttrs\<lparr>ID := i\<rparr>) cs"

definition styledGroup :: "string \<Rightarrow> string \<Rightarrow> Child list \<Rightarrow> Group" where
  "styledGroup i sty cs = MkGroup (zeroAttrs\<lparr>ID := i, Style := sty\<rparr>) cs"

definition elemGroup :: "string \<Rightarrow> Child list \<Rightarrow> Group" where
  "elemGroup e cs = MkGroup (zeroAttrs\<lparr>Element := e\<rparr>) cs"

text \<open>
  The example of the specification: base \<^verbatim>\<open>kvg:09999\<close> with the children
  [Path, Group[Path, Path], Path], in a document with both top-level groups; and a
  document whose base group holds a text before its only path.
\<close>

definition c1_base :: Group where
  "c1_base = groupOf ''kvg:09999''
     [pathChild zeroPath,
      groupChild (groupOf [] [pathChild zeroPath, pathChild zeroPath]),
      pathChild zeroPath]"

definition c1_doc :: SVG where
  "c1_doc = svgOf [groupOf ''kvg:StrokePaths_09999'' [groupChild c1_base],
                   groupOf ''kvg:StrokeNumbers_09999'' []]"

definition c1_text_doc :: SVG where
  "c1_text_doc = svgOf [groupOf ''kvg:StrokePaths_09999''
       [groupChild (groupOf ''kvg:09999'' [textChild zeroText, pathChild zeroPath])],
     groupOf ''kvg:StrokeNumbers_09999'' []]"

text \<open>
  A document as the decoder returns it for a file that has the stroke-paths group and no
  stroke-numbers group: one top-level group, a base group with an element name, two
  strokes.
\<close>

definition c2_doc :: SVG where
  "c2_doc = svgOf [styledGroup ''kvg:StrokePaths_04e8c'' strokeStyle
       [groupChild (MkGroup (zeroAttrs\<lparr>ID := ''kvg:04e8c'', Element := ''x''\<rparr>)
          [pathChild (zeroPath\<lparr>Path_ID := ''kvg:04e8c-s1'', Path_Type := ''a'', Path_D := ''M1,2''\<rparr>),
           pathChild (zeroPath\<lparr>Path_ID := ''kvg:04e8c-s2'', Path_Type := ''a'', Path_D := ''M3,4''\<rparr>)])]]"

text \<open>
  A document with a single top-level group; a document whose base group and the group
  below it carry style attributes; two trees of the shape of the specification's
  example with other identifiers, attributes and labels; a tree \<^verbatim>\<open>r[x[x], x]\<close> of
  element names; and a document whose first top-level group begins with a path.
\<close>

definition c3_doc :: SVG where
  "c3_doc = svgOf [groupOf ''kvg:StrokePaths_09999''
       [groupChild (groupOf ''kvg:09999'' [pathChild zeroPath])]]"

definition c4_doc :: SVG where
  "c4_doc = svgOf [groupOf ''kvg:StrokePaths_09999''
       [groupChild (styledGroup ''kvg:09999'' ''fill:red''
          [groupChild (styledGroup ''kvg:09999-g1'' ''stroke:blue'' [pathChild zeroPath])])],
     groupOf ''kvg:StrokeNumbers_09999'' []]"

definition c6_base :: Group where
  "c6_base = MkGroup (zeroAttrs\<lparr>ID := ''kvg:09999'', Element := ''x''\<rparr>)
     [pathChild (zeroPath\<lparr>Path_ID := ''kvg:01234-s7'', Path_D := ''M1,2''\<rparr>),
      groupChild (styledGroup ''kvg:01234-g5'' ''stroke:blue''
        [pathChild zeroPath, pathChild (zeroPath\<lparr>Path_ID := ''a''\<rparr>)]),
      pathChild (zeroPath\<lparr>Path_Type := ''t''\<rparr>)]"

definition c6_doc :: SVG where
  "c6_doc = svgOf [styledGroup ''paths'' ''fill:red'' [groupChild c6_base],
     groupOf ''numbers'' [textChild (zeroText\<lparr>Text_Content := ''7''\<rparr>), textChild zeroText]]"

definition c7_tree :: Group where
  "c7_tree = elemGroup ''r''
     [groupChild (elemGroup ''x'' [groupChild (elemGroup ''x'' [])]),
      groupChild (elemGroup ''x'' [])]"

definition c10_doc :: SVG where
  "c10_doc = svgOf [groupOf ''kvg:StrokePaths_09999'' [pathChild zeroPath],
                    groupOf ''kvg:StrokeNumbers_09999'' []]"

text \<open>
  A tree \<^verbatim>\<open>r[a[path, x], x]\<close> of element names, in which no group named \<^verbatim>\<open>x\<close> stands
  before another child of the same group; and the document \<open>c10_doc\<close> without its
  second top-level group.
\<close>

definition c7_clean :: Group where
  "c7_clean = elemGroup ''r''
     [groupChild (elemGroup ''a'' [pathChild zeroPath, groupChild (elemGroup ''x'' [])]),
      groupChild (elemGroup ''x'' [])]"

definition c10_single :: SVG where
  "c10_single = svgOf [groupOf ''kvg:StrokePaths_09999'' [pathChild zeroPath]]"

section \<open>Lemmas about the renumbering walk\<close>

lemma numbered_append: "m \<le> k \<Longrightarrow> k \<le> n \<Longrightarrow> numbered f m k @ numbered f k n = numbered f m n"
proof -
  assume "m \<le> k" "k \<le> n"
  then obtain d where "n = k + d" using le_Suc_ex by blast
  with \<open>m \<le> k\<close> show ?thesis
    using upt_add_eq_append[of m k d] by (simp add: numbered_def)
qed

lemma numbered_step: "numbered f m (Suc m) = [f (Suc m)]"
  by (simp add: numbered_def)

lemma numbered_Cons: "m < n \<Longrightarrow> f (Suc m) # numbered f (Suc m) n = numbered f m n"
  by (simp add: numbered_def upt_conv_Cons)

lemma numbered_self [simp]: "numbered f m m = []"
  by (simp add: numbered_def)

lemma renumber_walk:
  "noTextC c \<Longrightarrow> renumber base c st = (c', st') \<Longrightarrow>
     fst st' = fst st + length (pathsInOrderC c) \<and>
     snd st' = snd st + length (groupsInOrderC c) \<and>
     map Path_ID (pathsInOrderC c') = numbered (pathID base) (fst st) (fst st') \<and>
     map (\<lambda>g. ID (Attrs g)) (groupsInOrderC c') = numbered (groupID base) (snd st) (snd st')"
  "noTextCs cs \<Longrightarrow> renumberChildren base cs st = (cs', st') \<Longrightarrow>
     fst st' = fst st + length (pathsInOrderCs cs) \<and>
     snd st' = snd st + length (groupsInOrderCs cs) \<and>
     map Path_ID (pathsInOrderCs cs') = numbered (pathID base) (fst st) (fst st') \<and>
     map (\<lambda>g. ID (Attrs g)) (groupsInOrderCs cs') = numbered (groupID base) (snd st) (snd st')"
proof (induction base c st and base cs st arbitrary: c' st' and cs' st' rule: renumber_renumberChildren.induct)
  case (1 base p a cs t isg ist nPath nGroup)
  show ?case
  proof (cases isg)
    case True
    obtain cs1 st1 where r: "renumberChildren base cs (nPath, Suc nGroup) = (cs1, st1)"
      by (cases "renumberChildren base cs (nPath, Suc nGroup)")
    from "1.prems" True r have c': "c' = MkChild p (MkGroup (a\<lparr>ID := groupID base (Suc nGroup)\<rparr>) cs1) t isg ist" and st': "st' = st1"
      by simp_all
    from "1.prems" True have nt: "noTextCs cs" by simp
    have ih: "fst st1 = nPath + length (pathsInOrderCs cs) \<and>
     snd st1 = Suc nGroup + length (groupsInOrderCs cs) \<and>
     map Path_ID (pathsInOrderCs cs1) = numbered (pathID base) nPath (fst st1) \<and>
     map (\<lambda>g. ID (Attrs g)) (groupsInOrderCs cs1) = numbered (groupID base) (Suc nGroup) (snd st1)"
      using "1.IH"[OF True _ _ nt, of "Suc nGroup" "a\<lparr>ID := groupID base (Suc nGroup)\<rparr>" cs1 st1] r by simp
    show ?thesis using ih True c' st'
      by (simp add: numbered_Cons)
  next
    case False
    with "1.prems" show ?thesis by (auto simp: numbered_step)
  qed
next
  case (2 base st)
  then show ?case by simp
next
  case (3 base c cs st)
  obtain c1 st1 where r1: "renumber base c st = (c1, st1)" by (cases "renumber base c st")
  obtain cs1 st2 where r2: "renumberChildren base cs st1 = (cs1, st2)" by (cases "renumberChildren base cs st1")
  from "3.prems" r1 r2 have e: "cs' = c1 # cs1" "st' = st2" by simp_all
  from "3.prems" have nt: "noTextC c" "noTextCs cs" by simp_all
  note h1 = "3.IH"(1)[OF nt(1) r1]
  note h2 = "3.IH"(2)[OF r1[symmetric] refl nt(2) r2]
  have le1: "fst st \<le> fst st1" "fst st1 \<le> fst st2" "snd st \<le> snd st1" "snd st1 \<le> snd st2"
    using h1 h2 by simp_all
  have p: "map Path_ID (pathsInOrderCs cs') = numbered (pathID base) (fst st) (fst st2)"
    using h1 h2 numbered_append[OF le1(1) le1(2), of "pathID base"] by (simp add: e)
  have g: "map (\<lambda>g. ID (Attrs g)) (groupsInOrderCs cs') = numbered (groupID base) (snd st) (snd st2)"
    using h1 h2 numbered_append[OF le1(3) le1(4), of "groupID base"] by (simp add: e)
  have n1: "fst st2 = fst st + length (pathsInOrderCs (c # cs))" using h1 h2 by simp
  have n2: "snd st2 = snd st + length (groupsInOrderCs (c # cs))" using h1 h2 by simp
  show ?case unfolding e(2) by (rule conjI[OF n1 conjI[OF n2 conjI[OF p g]]])
qed

lemma numbered_upt: "map f [Suc 0..<Suc n] = numbered f 0 n"
proof -
  have "map f [Suc 0..<Suc n] = map f (map Suc [0..<n])"
    by (simp only: map_Suc_upt)
  also have "\<dots> = map (\<lambda>k. f (Suc k)) [0..<n]"
    by (simp add: comp_def del: upt_Suc)
  finally show ?thesis
    by (simp add: numbered_def del: upt_Suc)
qed

lemma removeChildStyles_noop [simp]: "removeChildStyles g = g"
  by (induction g rule: removeChildStyles.induct) (simp add: Let_def)

lemma BaseGroup_InrD:
  "BaseGroup kvg = Inr b \<Longrightarrow> \<exists>g gs c cs. Groups kvg = g # gs \<and> Children g = c # cs \<and> Group c = b"
  by (auto simp: BaseGroup_def split: list.splits)

lemma Groups_updGroup [simp]: "Groups (updGroup i f kvg) = (Groups kvg)[i := f (Groups kvg ! i)]"
  by (simp add: updGroup_def)

lemma Children_setID [simp]: "Children (setID s g) = Children g"
  by (simp add: setID_def)

lemma Attrs_setID [simp]: "Attrs (setID s g) = (Attrs g)\<lparr>ID := s\<rparr>"
  by (simp add: setID_def)

lemma Attrs_setStyle [simp]: "Attrs (setStyle s g) = (Attrs g)\<lparr>Style := s\<rparr>"
  by (simp add: setStyle_def)

lemma Children_setChildren [simp]: "Children (setChildren cs g) = cs"
  by (simp add: setChildren_def)

lemma Attrs_setChildren [simp]: "Attrs (setChildren cs g) = Attrs g"
  by (simp add: setChildren_def)

lemma walk_from_zero:
  assumes "noTextBelow b" and "renumberChildren base (Children b) (0, 0) = (cs, st)"
  shows "walkNumbers base b (setChildren cs g)"
proof -
  from renumber_walk(2)[OF assms(1)[unfolded noTextBelow_def] assms(2)]
  show ?thesis
    by (simp add: walkNumbers_def groupsInOrder_def pathsInOrder_def numbered_upt del: upt_Suc)
qed

lemma BaseGroup_updGroup_same:
  "(\<And>g. Children (f g) = Children g) \<Longrightarrow> BaseGroup (updGroup 0 f kvg) = BaseGroup kvg"
  by (cases "Groups kvg") (simp_all add: BaseGroup_def)

lemma BaseGroup_updGroup_later:
  "0 < i \<Longrightarrow> BaseGroup (updGroup i f kvg) = BaseGroup kvg"
  by (cases "Groups kvg"; cases i) (simp_all add: BaseGroup_def)

lemma BaseGroup_updBaseGroup:
  "BaseGroup kvg = Inr b \<Longrightarrow> BaseGroup (updBaseGroup f kvg) = Inr (f b)"
  by (auto simp: BaseGroup_def updBaseGroup_def updFirstChildGroup_def setChildGroup_def
      split: list.splits)

lemma length_Groups_updBaseGroup [simp]:
  "length (Groups (updBaseGroup f kvg)) = length (Groups kvg)"
  by (simp add: updBaseGroup_def)

lemma SetBase_result:
  assumes "BaseGroup kvg = Inr b" and "4 \<le> length base" and "take 4 base = ''kvg:''"
    and "renumberChildren base (Children b) (0, 0) = (cs, st)"
  shows "\<exists>kvg'. SetBase kvg base = Inr kvg' \<and>
           BaseGroup kvg' = Inr (setChildren cs (setID base b))"
  using assms
  by (simp add: SetBase_def Let_def BaseGroup_updBaseGroup BaseGroup_updGroup_same
      BaseGroup_updGroup_later)

lemma RenumberXML_result:
  assumes "BaseGroup kvg = Inr b" and "2 \<le> length (Groups kvg)"
    and "renumberChildren (ID (Attrs b)) (Children b) (0, 0) = (cs, st)"
  shows "\<exists>kvg'. RenumberXML kvg = Inr kvg' \<and> BaseGroup kvg' = Inr (setChildren cs b)"
  using assms
  by (auto simp add: RenumberXML_def RenumberLabels_def SetStyle_def Let_def BaseGroup_updBaseGroup
      BaseGroup_updGroup_same BaseGroup_updGroup_later)

subsection \<open>Documents without a second group, and leaves as base group\<close>

lemma RenumberXML_short: "length (Groups kvg) < 2 \<Longrightarrow> RenumberXML kvg = Inl IndexOutOfRange"
  by (cases "BaseGroup kvg")
     (auto simp: RenumberXML_def RenumberLabels_def Let_def BaseGroup_def split: list.splits prod.splits)

lemma Children_zeroGroup [simp]: "Children zeroGroup = []"
  by (simp add: zeroGroup_def)

lemma Group_leaf_children [simp]:
  "Group (pathChild p) = zeroGroup" "Group (textChild t) = zeroGroup"
  by (simp_all add: pathChild_def textChild_def)

subsection \<open>Shape and idempotence\<close>

lemma renumber_shape:
  "idsC (fst (renumber base c st)) = fst (walkShape base (shapeC c) st) \<and>
   snd (renumber base c st) = snd (walkShape base (shapeC c) st)"
  "idsCs (fst (renumberChildren base cs st)) = fst (walkShapes base (shapeCs cs) st) \<and>
   snd (renumberChildren base cs st) = snd (walkShapes base (shapeCs cs) st)"
proof (induction base c st and base cs st rule: renumber_renumberChildren.induct)
  case (1 base p a cs t isg ist nPath nGroup)
  show ?case
  proof (cases isg)
    case True
    obtain cs1 st1 where r: "renumberChildren base cs (nPath, Suc nGroup) = (cs1, st1)"
      by (cases "renumberChildren base cs (nPath, Suc nGroup)")
    obtain ts st2 where w: "walkShapes base (shapeCs cs) (nPath, Suc nGroup) = (ts, st2)"
      by (cases "walkShapes base (shapeCs cs) (nPath, Suc nGroup)")
    from "1.IH"[OF True refl refl] r w have "idsCs cs1 = ts" "st1 = st2" by simp_all
    with True r w show ?thesis by simp
  next
    case False
    then show ?thesis by simp
  qed
next
  case (2 base st)
  show ?case by simp
next
  case (3 base c cs st)
  obtain c1 st1 where r1: "renumber base c st = (c1, st1)" by (cases "renumber base c st")
  obtain cs1 st2 where r2: "renumberChildren base cs st1 = (cs1, st2)"
    by (cases "renumberChildren base cs st1")
  obtain t1 su1 where w1: "walkShape base (shapeC c) st = (t1, su1)"
    by (cases "walkShape base (shapeC c) st")
  obtain ts su2 where w2: "walkShapes base (shapeCs cs) su1 = (ts, su2)"
    by (cases "walkShapes base (shapeCs cs) su1")
  from "3.IH"(1) r1 w1 have e1: "idsC c1 = t1" "st1 = su1" by simp_all
  from "3.IH"(2)[OF r1[symmetric] refl] r2 w2 e1 have e2: "idsCs cs1 = ts" "st2 = su2" by simp_all
  show ?case using r1 r2 w1 w2 e1 e2 by simp
qed

lemma renumber_idem:
  "renumber base c st = (c', st') \<Longrightarrow> renumber base c' st = (c', st')"
  "renumberChildren base cs st = (cs', st') \<Longrightarrow> renumberChildren base cs' st = (cs', st')"
proof (induction base c st and base cs st arbitrary: c' st' and cs' st' rule: renumber_renumberChildren.induct)
  case (1 base p a cs t isg ist nPath nGroup)
  show ?case
  proof (cases isg)
    case True
    obtain cs1 st1 where r: "renumberChildren base cs (nPath, nGroup + 1) = (cs1, st1)"
      by (cases "renumberChildren base cs (nPath, nGroup + 1)")
    from "1.IH"[OF True refl refl r] have i: "renumberChildren base cs1 (nPath, nGroup + 1) = (cs1, st1)" .
    from "1.prems" True r have "c' = MkChild p (MkGroup (a\<lparr>ID := groupID base (Suc nGroup)\<rparr>) cs1) t isg ist" "st' = st1"
      by simp_all
    with True i show ?thesis by simp
  next
    case False
    with "1.prems" show ?thesis by auto
  qed
next
  case (2 base st)
  then show ?case by simp
next
  case (3 base c cs st)
  obtain c1 st1 where r1: "renumber base c st = (c1, st1)" by (cases "renumber base c st")
  obtain cs1 st2 where r2: "renumberChildren base cs st1 = (cs1, st2)"
    by (cases "renumberChildren base cs st1")
  from "3.prems" r1 r2 have e: "cs' = c1 # cs1" "st' = st2" by simp_all
  from "3.IH"(1)[OF r1] have i1: "renumber base c1 st = (c1, st1)" .
  from "3.IH"(2)[OF r1[symmetric] refl r2] have i2: "renumberChildren base cs1 st1 = (cs1, st2)" .
  show ?case using e i1 i2 by simp
qed

lemma renumberLabelsFrom_idem:
  "renumberLabelsFrom i (renumberLabelsFrom i cs) = renumberLabelsFrom i cs"
  by (induction i cs rule: renumberLabelsFrom.induct) auto


lemma RenumberXML_InrD:
  "RenumberXML d = Inr d1 \<Longrightarrow>
     \<exists>g0 g1 gs c0 cs0. Groups d = g0 # g1 # gs \<and> Children g0 = c0 # cs0"
proof -
  assume a: "RenumberXML d = Inr d1"
  have "\<not> length (Groups d) < 2" using a RenumberXML_short[of d] by auto
  then obtain g0 g1 gs where g: "Groups d = g0 # g1 # gs"
    by (cases "Groups d"; cases "tl (Groups d)") auto
  from a g obtain c0 cs0 where "Children g0 = c0 # cs0"
    by (cases "Children g0") (auto simp: RenumberXML_def BaseGroup_def)
  with g show ?thesis by blast
qed

lemma RenumberXML_explicit:
  assumes "Groups d = g0 # g1 # gs" and "Children g0 = c0 # cs0"
    and "renumberChildren (ID (Attrs (Group c0))) (Children (Group c0)) (0, 0) = (cs, st)"
  shows "RenumberXML d = Inr (d\<lparr>Groups :=
           MkGroup ((Attrs g0)\<lparr>Style := strokeStyle\<rparr>)
             (MkChild (Path c0) (MkGroup (Attrs (Group c0)) cs) (Text c0) (IsGroup c0) (IsText c0) # cs0)
           # MkGroup ((Attrs g1)\<lparr>Style := labelStyle\<rparr>) (renumberLabelsFrom 0 (Children g1))
           # gs\<rparr>)"
  using assms
  by (simp add: RenumberXML_def BaseGroup_def RenumberLabels_def SetStyle_def Let_def
      updBaseGroup_def updFirstChildGroup_def updGroup_def setChildren_def setChildGroup_def
      setStyle_def)

lemma RenumberXML_idem:
  assumes "RenumberXML d = Inr d1"
  shows "RenumberXML d1 = Inr d1"
proof -
  from RenumberXML_InrD[OF assms] obtain g0 g1 gs c0 cs0 where
    g: "Groups d = g0 # g1 # gs" "Children g0 = c0 # cs0" by blast
  obtain cs st where
    r: "renumberChildren (ID (Attrs (Group c0))) (Children (Group c0)) (0, 0) = (cs, st)"
    by (cases "renumberChildren (ID (Attrs (Group c0))) (Children (Group c0)) (0, 0)")
  define G0 where "G0 = MkGroup ((Attrs g0)\<lparr>Style := strokeStyle\<rparr>)
             (MkChild (Path c0) (MkGroup (Attrs (Group c0)) cs) (Text c0) (IsGroup c0) (IsText c0) # cs0)"
  define G1 where "G1 = MkGroup ((Attrs g1)\<lparr>Style := labelStyle\<rparr>) (renumberLabelsFrom 0 (Children g1))"
  from RenumberXML_explicit[OF g r] assms have d1: "d1 = d\<lparr>Groups := G0 # G1 # gs\<rparr>"
    by (simp add: G0_def G1_def)
  have g': "Groups d1 = G0 # G1 # gs" by (simp add: d1)
  have c': "Children G0 = MkChild (Path c0) (MkGroup (Attrs (Group c0)) cs) (Text c0) (IsGroup c0) (IsText c0) # cs0"
    by (simp add: G0_def)
  have r': "renumberChildren (ID (Attrs (Group (MkChild (Path c0) (MkGroup (Attrs (Group c0)) cs) (Text c0) (IsGroup c0) (IsText c0)))))
      (Children (Group (MkChild (Path c0) (MkGroup (Attrs (Group c0)) cs) (Text c0) (IsGroup c0) (IsText c0)))) (0, 0) = (cs, st)"
    using renumber_idem(2)[OF r] by simp
  from RenumberXML_explicit[OF g' c' r']
  show ?thesis
    by (simp add: d1 G0_def G1_def renumberLabelsFrom_idem)
qed

lemma RenumberXML_baseIDs:
  assumes "RenumberXML d = Inr d1" and "BaseGroup d = Inr b"
  shows "baseIDs d1 = Some (ID (Attrs b), fst (walkShapes (ID (Attrs b)) (shapeCs (Children b)) (0, 0)))"
proof -
  obtain cs st where r: "renumberChildren (ID (Attrs b)) (Children b) (0, 0) = (cs, st)"
    by (cases "renumberChildren (ID (Attrs b)) (Children b) (0, 0)")
  from RenumberXML_InrD[OF assms(1)] have two: "2 \<le> length (Groups d)" by auto
  from RenumberXML_result[OF assms(2) two r] assms(1)
  have "BaseGroup d1 = Inr (setChildren cs b)" by auto
  moreover have "idsCs cs = fst (walkShapes (ID (Attrs b)) (shapeCs (Children b)) (0, 0))"
    using renumber_shape(2)[of "ID (Attrs b)" "Children b" "(0, 0)"] r by simp
  ultimately show ?thesis by (simp add: baseIDs_def)
qed

subsection \<open>The frame\<close>

lemma erase_renumber:
  "eraseC (fst (renumber base c st)) = eraseC c"
  "eraseCs (fst (renumberChildren base cs st)) = eraseCs cs"
proof (induction base c st and base cs st rule: renumber_renumberChildren.induct)
  case (1 base p a cs t isg ist nPath nGroup)
  show ?case
  proof (cases isg)
    case True
    obtain cs1 st1 where r: "renumberChildren base cs (nPath, nGroup + 1) = (cs1, st1)"
      by (cases "renumberChildren base cs (nPath, nGroup + 1)")
    from "1.IH"[OF True refl refl] r have "eraseCs cs1 = eraseCs cs" by simp
    with True r show ?thesis by simp
  next
    case False
    then show ?thesis by simp
  qed
next
  case (2 base st)
  show ?case by simp
next
  case (3 base c cs st)
  obtain c1 st1 where r1: "renumber base c st = (c1, st1)" by (cases "renumber base c st")
  obtain cs1 st2 where r2: "renumberChildren base cs st1 = (cs1, st2)"
    by (cases "renumberChildren base cs st1")
  from "3.IH"(1) r1 have e1: "eraseC c1 = eraseC c" by simp
  from "3.IH"(2)[OF r1[symmetric] refl] r2 have e2: "eraseCs cs1 = eraseCs cs" by simp
  show ?case using r1 r2 e1 e2 by simp
qed

lemma eraseC_sel:
  "eraseC c = MkChild ((Path c)\<lparr>Path_ID := []\<rparr>) (eraseG (Group c)) (Text c) (IsGroup c) (IsText c)"
  by (cases c; cases "Group c") (simp add: eraseG_def)

lemma erase_labels:
  "map eraseLabelText (eraseCs (renumberLabelsFrom i cs)) = map eraseLabelText (eraseCs cs)"
  by (induction i cs rule: renumberLabelsFrom.induct) (auto simp: eraseC_sel eraseLabelText_def)

lemma eraseG_setID [simp]: "eraseG (setID s g) = eraseG g"
  by (simp add: eraseG_def setID_def)

lemma eraseG_setStyle [simp]: "eraseG (setStyle s g) = eraseG g"
  by (simp add: eraseG_def setStyle_def)

lemma eraseLabels_setID [simp]: "eraseLabels (setID s g) = eraseLabels g"
  by (simp add: eraseLabels_def setID_def)

lemma eraseLabels_setStyle [simp]: "eraseLabels (setStyle s g) = eraseLabels g"
  by (simp add: eraseLabels_def setStyle_def)

lemma eraseG_setChildren: "eraseCs cs = eraseCs (Children g) \<Longrightarrow> eraseG (setChildren cs g) = eraseG g"
  by (simp add: eraseG_def setChildren_def)

lemma eraseSVG_updGroup0:
  "(Groups kvg \<noteq> [] \<Longrightarrow> eraseG (f (hd (Groups kvg))) = eraseG (hd (Groups kvg))) \<Longrightarrow>
     eraseSVG (updGroup 0 f kvg) = eraseSVG kvg"
  by (cases "Groups kvg"; cases "tl (Groups kvg)") (auto simp: eraseSVG_def updGroup_def)

lemma eraseSVG_updGroup1:
  "(\<And>g. eraseLabels (f g) = eraseLabels g) \<Longrightarrow> 1 < length (Groups kvg) \<Longrightarrow>
     eraseSVG (updGroup 1 f kvg) = eraseSVG kvg"
  by (cases "Groups kvg"; cases "tl (Groups kvg)") (auto simp: eraseSVG_def updGroup_def)

lemma eraseSVG_updBaseGroup:
  assumes "BaseGroup kvg = Inr b" and "eraseG (f b) = eraseG b"
  shows "eraseSVG (updBaseGroup f kvg) = eraseSVG kvg"
proof -
  from BaseGroup_InrD[OF assms(1)] obtain g gs c cs where
    G: "Groups kvg = g # gs" "Children g = c # cs" "Group c = b" by blast
  have "eraseG (updFirstChildGroup f g) = eraseG g"
    using G assms(2) by (simp add: updFirstChildGroup_def eraseG_def setChildren_def setChildGroup_def eraseC_sel)
  then show ?thesis unfolding updBaseGroup_def
    by (intro eraseSVG_updGroup0) (simp add: G)
qed

lemma SetBase_frame:
  assumes "SetBase kvg base = Inr kvg1"
  shows "eraseSVG kvg1 = eraseSVG kvg"
proof -
  from assms have pre: "\<not> length base < 4" "take 4 base = ''kvg:''"
    by (auto simp: SetBase_def split: if_splits)
  from assms pre obtain b where b: "BaseGroup kvg = Inr b"
    by (cases "BaseGroup kvg") (auto simp: SetBase_def)
  obtain cs st where r: "renumberChildren base (Children b) (0, 0) = (cs, st)"
    by (cases "renumberChildren base (Children b) (0, 0)")
  define k1 where "k1 = updBaseGroup (setID base) kvg"
  define k2 where "k2 = updGroup 0 (setID (''kvg:StrokePaths_'' @ drop 4 base)) k1"
  define k3 where "k3 = (if length (Groups k2) > 1
        then updGroup 1 (setID (''kvg:StrokeNumbers_'' @ drop 4 base)) k2 else k2)"
  have res: "kvg1 = updBaseGroup (setChildren cs) k3"
    using assms pre b r
    by (auto simp add: SetBase_def Let_def k1_def k2_def k3_def split: if_splits)
  have e1: "eraseSVG k1 = eraseSVG kvg"
    unfolding k1_def by (rule eraseSVG_updBaseGroup[OF b]) simp
  have e2: "eraseSVG k2 = eraseSVG k1"
    unfolding k2_def by (rule eraseSVG_updGroup0) simp
  have e3: "eraseSVG k3 = eraseSVG k2"
  proof (cases "1 < length (Groups k2)")
    case True
    then have "k3 = updGroup 1 (setID (''kvg:StrokeNumbers_'' @ drop 4 base)) k2"
      unfolding k3_def by simp
    then show ?thesis
      using eraseSVG_updGroup1[OF eraseLabels_setID True] by (simp only:)
  next
    case False
    then show ?thesis unfolding k3_def by simp
  qed
  have b3: "BaseGroup k3 = Inr (setID base b)"
    unfolding k3_def k2_def k1_def
    by (simp add: BaseGroup_updBaseGroup[OF b] BaseGroup_updGroup_same BaseGroup_updGroup_later)
  have "eraseCs cs = eraseCs (Children b)"
    using erase_renumber(2)[of base "Children b" "(0, 0)"] r by simp
  then have e4: "eraseSVG kvg1 = eraseSVG k3"
    unfolding res by (intro eraseSVG_updBaseGroup[OF b3] eraseG_setChildren) simp
  from e1 e2 e3 e4 show ?thesis by simp
qed

lemma eraseLabels_relabel:
  "eraseLabels (setChildren (renumberLabelsFrom 0 (Children g)) g) = eraseLabels g"
  by (simp add: eraseLabels_def setChildren_def erase_labels)

lemma RenumberXML_frame:
  assumes "RenumberXML kvg = Inr kvg2"
  shows "eraseSVG kvg2 = eraseSVG kvg"
proof -
  from RenumberXML_InrD[OF assms] have two: "1 < length (Groups kvg)" by auto
  from assms obtain b where b: "BaseGroup kvg = Inr b"
    by (cases "BaseGroup kvg") (auto simp: RenumberXML_def)
  obtain cs st where r: "renumberChildren (ID (Attrs b)) (Children b) (0, 0) = (cs, st)"
    by (cases "renumberChildren (ID (Attrs b)) (Children b) (0, 0)")
  define k1 where "k1 = updBaseGroup (setChildren cs) kvg"
  define k2 where "k2 = updGroup 1 (\<lambda>labels. setChildren (renumberLabelsFrom 0 (Children labels)) labels) k1"
  define k3 where "k3 = updGroup 0 (setStyle strokeStyle) k2"
  define k4 where "k4 = updGroup 1 (setStyle labelStyle) k3"
  have ne: "Groups kvg \<noteq> []" and l2: "\<not> length (Groups kvg) < 2" using two by auto
  have res: "kvg2 = updGroup 0 removeChildStyles k4"
    using assms b r ne l2
    by (simp add: RenumberXML_def RenumberLabels_def SetStyle_def Let_def k1_def k2_def k3_def k4_def)
  have "eraseCs cs = eraseCs (Children b)"
    using erase_renumber(2)[of "ID (Attrs b)" "Children b" "(0, 0)"] r by simp
  then have e1: "eraseSVG k1 = eraseSVG kvg"
    unfolding k1_def by (intro eraseSVG_updBaseGroup[OF b] eraseG_setChildren)
  have e2: "eraseSVG k2 = eraseSVG k1"
    unfolding k2_def using two by (intro eraseSVG_updGroup1 eraseLabels_relabel) (simp add: k1_def)
  have e3: "eraseSVG k3 = eraseSVG k2"
    unfolding k3_def by (rule eraseSVG_updGroup0) simp
  have e4: "eraseSVG k4 = eraseSVG k3"
    unfolding k4_def using two by (intro eraseSVG_updGroup1) (simp_all add: k3_def k2_def k1_def)
  have e5: "eraseSVG kvg2 = eraseSVG k4"
    unfolding res by (rule eraseSVG_updGroup0) simp
  from e1 e2 e3 e4 e5 show ?thesis by simp
qed

subsection \<open>The chains of FindMultiElement\<close>

lemma topMatches_below:
  "m \<in> set (topMatches gp g name) \<Longrightarrow> \<exists>rel. m = gp @ rel \<and> rel \<noteq> []"
  "m \<in> set (topMatchesRange gp i cs name) \<Longrightarrow> \<exists>rel. m = gp @ rel \<and> rel \<noteq> []"
proof (induction gp g name and gp i cs name rule: topMatches_topMatchesRange.induct)
  case (1 gp a cs name)
  then show ?case by simp
next
  case (2 gp i name)
  then show ?case by simp
next
  case (3 gp i p g t isg ist rest name)
  from "3.prems" consider
      (here) "isg" "Element (Attrs g) = name" "m = gp @ [i]"
    | (deep) "isg" "Element (Attrs g) \<noteq> name" "m \<in> set (topMatches (gp @ [i]) g name)"
    | (rest) "m \<in> set (topMatchesRange gp (i + 1) rest name)"
    by (auto split: if_splits)
  then show ?case
  proof cases
    case here
    then show ?thesis by simp
  next
    case deep
    from "3.IH"(1)[OF deep(1) deep(2) deep(3)] obtain rel where "m = (gp @ [i]) @ rel" by blast
    then show ?thesis by simp
  next
    case rest
    from "3.IH"(2)[OF rest] show ?thesis .
  qed
qed

lemma below_step: "rel \<noteq> [] \<Longrightarrow> below gp (gp @ i # rel) = (gp @ [i]) # below (gp @ [i]) (gp @ i # rel)"
  by (cases rel) (simp_all add: below_def)

lemma below_single: "below gp (gp @ [i]) = [gp @ [i]]"
  by (simp add: below_def)

lemma allMatches_index:
  "m \<in> set (allMatches gp g name) \<Longrightarrow> \<exists>j rel. m = gp @ j # rel"
  "m \<in> set (allMatchesRange gp i cs name) \<Longrightarrow> \<exists>j rel. m = gp @ j # rel \<and> i \<le> j"
proof (induction gp g name and gp i cs name rule: allMatches_allMatchesRange.induct)
  case (1 gp a cs name)
  then show ?case by auto
next
  case (2 gp i name)
  then show ?case by simp
next
  case (3 gp i p g t isg ist rest name)
  from "3.prems" consider
      (here) "isg" "m = gp @ [i]"
    | (deep) "isg" "m \<in> set (allMatches (gp @ [i]) g name)"
    | (rest) "m \<in> set (allMatchesRange gp (i + 1) rest name)"
    by (auto split: if_splits)
  then show ?case
  proof cases
    case here
    then show ?thesis by simp
  next
    case deep
    from "3.IH"(1)[OF deep(1) deep(2)] obtain j rel where "m = (gp @ [i]) @ j # rel" by blast
    then show ?thesis by simp
  next
    case rest
    from "3.IH"(2)[OF rest] obtain j rel where "m = gp @ j # rel" "i + 1 \<le> j" by blast
    then show ?thesis by (intro exI[of _ j] exI[of _ rel]) simp
  qed
qed

lemma not_prefix_other_index:
  "i \<noteq> j \<Longrightarrow> \<not> strict_prefix (gp @ i # r1) (gp @ j # r2)"
  by (auto simp: strict_prefix_def)

lemma unshadowed_append_right:
  assumes "\<forall>p\<in>set B. \<not> strict_prefix p m"
  shows "unshadowed (A @ B) m = unshadowed A m"
  using assms by (auto simp: unshadowed_def)

lemma unshadowed_append_left:
  assumes "\<forall>p\<in>set A. \<not> strict_prefix p m"
  shows "unshadowed (A @ B) m = unshadowed B m"
  using assms by (auto simp: unshadowed_def)

lemma topMatches_filter:
  "topMatches gp g name = filter (unshadowed (allMatches gp g name)) (allMatches gp g name)"
  "topMatchesRange gp i cs name =
     filter (unshadowed (allMatchesRange gp i cs name)) (allMatchesRange gp i cs name)"
proof (induction gp g name and gp i cs name rule: topMatches_topMatchesRange.induct)
  case (1 gp a cs name)
  then show ?case by simp
next
  case (2 gp i name)
  show ?case by simp
next
  case (3 gp i p g t isg ist rest name)
  let ?B = "allMatches (gp @ [i]) g name"
  let ?Ac = "if isg then (if Element (Attrs g) = name then [gp @ [i]] else []) @ ?B else []"
  let ?Ar = "allMatchesRange gp (i + 1) rest name"
  have A: "allMatchesRange gp i (MkChild p g t isg ist # rest) name = ?Ac @ ?Ar" by simp
  have Ac_form: "\<And>m. m \<in> set ?Ac \<Longrightarrow> \<exists>rel. m = gp @ i # rel"
  proof -
    fix m assume "m \<in> set ?Ac"
    then consider "m = gp @ [i]" | "m \<in> set ?B" by (auto split: if_splits)
    then show "\<exists>rel. m = gp @ i # rel"
    proof cases
      case 1
      then show ?thesis by simp
    next
      case 2
      from allMatches_index(1)[OF 2] obtain j rel where "m = (gp @ [i]) @ j # rel" by blast
      then show ?thesis by simp
    qed
  qed
  have Ar_form: "\<And>m. m \<in> set ?Ar \<Longrightarrow> \<exists>j rel. m = gp @ j # rel \<and> i < j"
  proof -
    fix m assume "m \<in> set ?Ar"
    from allMatches_index(2)[OF this] obtain j rel where "m = gp @ j # rel" "i + 1 \<le> j" by blast
    then show "\<exists>j rel. m = gp @ j # rel \<and> i < j" by (intro exI[of _ j] exI[of _ rel]) simp
  qed
  have sep1: "\<And>m q. m \<in> set ?Ac \<Longrightarrow> q \<in> set ?Ar \<Longrightarrow> \<not> strict_prefix q m"
  proof -
    fix m q assume "m \<in> set ?Ac" "q \<in> set ?Ar"
    from Ac_form[OF this(1)] Ar_form[OF this(2)] obtain rel j rel' where
      "m = gp @ i # rel" "q = gp @ j # rel'" "i < j" by blast
    then show "\<not> strict_prefix q m" using not_prefix_other_index[of j i gp rel' rel] by simp
  qed
  have sep2: "\<And>m q. m \<in> set ?Ar \<Longrightarrow> q \<in> set ?Ac \<Longrightarrow> \<not> strict_prefix q m"
  proof -
    fix m q assume "m \<in> set ?Ar" "q \<in> set ?Ac"
    from Ar_form[OF this(1)] Ac_form[OF this(2)] obtain rel j rel' where
      "m = gp @ j # rel" "q = gp @ i # rel'" "i < j" by blast
    then show "\<not> strict_prefix q m" using not_prefix_other_index[of i j gp rel' rel] by simp
  qed
  have f1: "filter (unshadowed (?Ac @ ?Ar)) ?Ac = filter (unshadowed ?Ac) ?Ac"
    by (rule filter_cong[OF refl]) (rule unshadowed_append_right, use sep1 in blast)
  have f2: "filter (unshadowed (?Ac @ ?Ar)) ?Ar = filter (unshadowed ?Ar) ?Ar"
    by (rule filter_cong[OF refl]) (rule unshadowed_append_left, use sep2 in blast)
  have rest: "filter (unshadowed ?Ar) ?Ar = topMatchesRange gp (i + 1) rest name"
    using "3.IH"(2) by simp
  have here: "filter (unshadowed ?Ac) ?Ac =
      (if isg then (if Element (Attrs g) = name then [gp @ [i]] else topMatches (gp @ [i]) g name)
       else [])"
  proof (cases isg)
    case False
    then show ?thesis by simp
  next
    case True
    show ?thesis
    proof (cases "Element (Attrs g) = name")
      case False
      with True "3.IH"(1) show ?thesis by simp
    next
      case eq: True
      have B_below: "\<And>m. m \<in> set ?B \<Longrightarrow> strict_prefix (gp @ [i]) m"
      proof -
        fix m assume "m \<in> set ?B"
        from allMatches_index(1)[OF this] obtain j rel where "m = (gp @ [i]) @ j # rel" by blast
        then show "strict_prefix (gp @ [i]) m" by (simp add: strict_prefix_def)
      qed
      have k: "unshadowed ((gp @ [i]) # ?B) (gp @ [i])"
        unfolding unshadowed_def
      proof
        fix q assume "q \<in> set ((gp @ [i]) # ?B)"
        then consider "q = gp @ [i]" | "q \<in> set ?B" by auto
        then show "\<not> strict_prefix q (gp @ [i])"
        proof cases
          case 1
          then show ?thesis by simp
        next
          case 2
          from B_below[OF 2] show ?thesis by (rule prefix_order.less_not_sym)
        qed
      qed
      have d: "filter (unshadowed ((gp @ [i]) # ?B)) ?B = []"
        using B_below by (auto simp: filter_empty_conv unshadowed_def)
      from True eq k d show ?thesis by simp
    qed
  qed
  show ?case unfolding A filter_append f1 f2 rest here using topMatchesRange.simps(2)[of gp i p g t isg ist rest name]
    by simp
qed

lemma prefixes_hd: "prefixes m = [] # tl (prefixes m)"
  by (cases m) simp_all

lemma below_root: "below [] m = tl (prefixes m)"
proof -
  have "(@) ([] :: nat list) = (\<lambda>x. x)" by (rule ext) simp
  then show ?thesis by (simp add: below_def)
qed

lemma matchedBefore_0 [simp]: "\<not> matchedBefore cs 0 name"
  by (simp add: matchedBefore_def)

lemma matchedBefore_Suc [simp]:
  "matchedBefore (c # cs) (Suc k) name \<longleftrightarrow>
     (IsGroup c \<and> Element (Attrs (Group c)) = name) \<or> matchedBefore cs k name"
  by (auto simp: matchedBefore_def)

lemma topMatches_index:
  assumes "m \<in> set (topMatchesRange gp i cs name)"
  shows "\<exists>j rel. m = gp @ j # rel \<and> i \<le> j"
proof -
  from assms have "m \<in> set (allMatchesRange gp i cs name)"
    by (subst (asm) topMatches_filter(2)) simp
  then show ?thesis by (rule allMatches_index(2))
qed

lemma multiSearch_exact:
  "\<exists>new. multiSearch pos gp g funky locs = locs @ new \<and>
      map last new = topMatches gp g funky \<and>
      (\<forall>c\<in>set new. \<forall>rel. last c = gp @ rel \<longrightarrow> noEarlierMatch g funky rel \<longrightarrow>
         c = pos @ gp # below gp (last c))"
  "\<exists>new. multiSearchRange pos gp i cs funky locs = locs @ new \<and>
      map last new = topMatchesRange gp i cs funky \<and>
      (\<forall>c\<in>set new. \<forall>j rel. last c = gp @ j # rel \<longrightarrow> j - i < length cs \<longrightarrow>
         \<not> matchedBefore cs (j - i) funky \<longrightarrow>
         noEarlierMatch (Group (cs ! (j - i))) funky rel \<longrightarrow>
         c = pos @ below gp (last c))"
proof (induction pos gp g funky locs and pos gp i cs funky locs
    rule: multiSearch_multiSearchRange.induct)
  case (1 pos gp a cs funky locs)
  from "1.IH" obtain new where
    n: "multiSearchRange (pos @ [gp]) gp 0 cs funky locs = locs @ new"
       "map last new = topMatchesRange gp 0 cs funky"
       "\<And>c j rel. c \<in> set new \<Longrightarrow> last c = gp @ j # rel \<Longrightarrow> j < length cs \<Longrightarrow>
          \<not> matchedBefore cs j funky \<Longrightarrow> noEarlierMatch (Group (cs ! j)) funky rel \<Longrightarrow>
          c = (pos @ [gp]) @ below gp (last c)"
    by auto
  have "\<forall>c\<in>set new. \<forall>rel. last c = gp @ rel \<longrightarrow> noEarlierMatch (MkGroup a cs) funky rel \<longrightarrow>
         c = pos @ gp # below gp (last c)"
  proof (intro ballI allI impI)
    fix c rel
    assume c: "c \<in> set new" and l: "last c = gp @ rel" and ne: "noEarlierMatch (MkGroup a cs) funky rel"
    from c have "last c \<in> set (map last new)" by simp
    then have "last c \<in> set (topMatchesRange gp 0 cs funky)" by (simp only: n(2))
    from topMatches_index[OF this] obtain j rel' where j: "last c = gp @ j # rel'" by blast
    with l have r: "rel = j # rel'" by simp
    from ne r have "j < length cs" "\<not> matchedBefore cs j funky" "noEarlierMatch (Group (cs ! j)) funky rel'"
      by simp_all
    from n(3)[OF c j this] show "c = pos @ gp # below gp (last c)" by simp
  qed
  with n(1) n(2) show ?case by simp
next
  case (2 pos gp i funky locs)
  show ?case by simp
next
  case (3 pos gp i p g t isg ist rest funky locs)
  let ?ch = "MkChild p g t isg ist"
  have later: "\<And>c j rel new2. c \<in> set new2 \<Longrightarrow> map last new2 = topMatchesRange gp (i + 1) rest funky \<Longrightarrow>
      last c = gp @ j # rel \<Longrightarrow> \<exists>k. j - i = Suc k \<and> j - (i + 1) = k"
  proof -
    fix c j rel new2
    assume c: "c \<in> set new2" and m: "map last new2 = topMatchesRange gp (i + 1) rest funky"
      and l: "last c = gp @ j # rel"
    from c have "last c \<in> set (map last new2)" by simp
    then have "last c \<in> set (topMatchesRange gp (i + 1) rest funky)" by (simp only: m)
    from topMatches_index[OF this] l have "i + 1 \<le> j" by auto
    then show "\<exists>k. j - i = Suc k \<and> j - (i + 1) = k" by (intro exI[of _ "j - (i + 1)"]) simp
  qed
  show ?case
  proof (cases isg)
    case False
    from "3.IH"(1)[OF _] False obtain new2 where
      n2: "multiSearchRange pos gp (i + 1) rest funky locs = locs @ new2"
          "map last new2 = topMatchesRange gp (i + 1) rest funky"
          "\<And>c j rel. c \<in> set new2 \<Longrightarrow> last c = gp @ j # rel \<Longrightarrow> j - (i + 1) < length rest \<Longrightarrow>
            \<not> matchedBefore rest (j - (i + 1)) funky \<Longrightarrow>
            noEarlierMatch (Group (rest ! (j - (i + 1)))) funky rel \<Longrightarrow>
            c = pos @ below gp (last c)"
      by auto
    have "\<forall>c\<in>set new2. \<forall>j rel. last c = gp @ j # rel \<longrightarrow> j - i < length (?ch # rest) \<longrightarrow>
         \<not> matchedBefore (?ch # rest) (j - i) funky \<longrightarrow>
         noEarlierMatch (Group ((?ch # rest) ! (j - i))) funky rel \<longrightarrow>
         c = pos @ below gp (last c)"
    proof (intro ballI allI impI)
      fix c j rel
      assume c: "c \<in> set new2" and l: "last c = gp @ j # rel"
        and a: "j - i < length (?ch # rest)" "\<not> matchedBefore (?ch # rest) (j - i) funky"
          "noEarlierMatch (Group ((?ch # rest) ! (j - i))) funky rel"
      from later[OF c n2(2) l] obtain k where k: "j - i = Suc k" "j - (i + 1) = k" by blast
      from a k have "j - (i + 1) < length rest" "\<not> matchedBefore rest (j - (i + 1)) funky"
        "noEarlierMatch (Group (rest ! (j - (i + 1)))) funky rel" by simp_all
      from n2(3)[OF c l this] show "c = pos @ below gp (last c)" .
    qed
    with n2(1) n2(2) False show ?thesis by simp
  next
    case True
    show ?thesis
    proof (cases "Element (Attrs g) = funky")
      case False
      from "3.IH"(2)[OF _ refl False] True obtain new1 where
        n1: "multiSearch pos (gp @ [i]) g funky locs = locs @ new1"
            "map last new1 = topMatches (gp @ [i]) g funky"
            "\<And>c rel. c \<in> set new1 \<Longrightarrow> last c = (gp @ [i]) @ rel \<Longrightarrow> noEarlierMatch g funky rel \<Longrightarrow>
               c = pos @ (gp @ [i]) # below (gp @ [i]) (last c)"
        by auto
      from "3.IH"(3)[OF _ refl False] True obtain new2 where
        n2: "multiSearchRange pos gp (i + 1) rest funky (multiSearch pos (gp @ [i]) g funky locs)
               = multiSearch pos (gp @ [i]) g funky locs @ new2"
            "map last new2 = topMatchesRange gp (i + 1) rest funky"
            "\<And>c j rel. c \<in> set new2 \<Longrightarrow> last c = gp @ j # rel \<Longrightarrow> j - (i + 1) < length rest \<Longrightarrow>
              \<not> matchedBefore rest (j - (i + 1)) funky \<Longrightarrow>
              noEarlierMatch (Group (rest ! (j - (i + 1)))) funky rel \<Longrightarrow>
              c = pos @ below gp (last c)"
        by auto
      have res: "multiSearchRange pos gp i (?ch # rest) funky locs = locs @ (new1 @ new2)"
        using True False n1(1) n2(1) by (simp add: Let_def)
      have ml: "map last (new1 @ new2) = topMatchesRange gp i (?ch # rest) funky"
        using True False n1(2) n2(2) by simp
      have ex: "\<forall>c\<in>set (new1 @ new2). \<forall>j rel. last c = gp @ j # rel \<longrightarrow> j - i < length (?ch # rest) \<longrightarrow>
         \<not> matchedBefore (?ch # rest) (j - i) funky \<longrightarrow>
         noEarlierMatch (Group ((?ch # rest) ! (j - i))) funky rel \<longrightarrow>
         c = pos @ below gp (last c)"
      proof (intro ballI allI impI)
        fix c j rel
        assume c: "c \<in> set (new1 @ new2)" and l: "last c = gp @ j # rel"
          and a: "j - i < length (?ch # rest)" "\<not> matchedBefore (?ch # rest) (j - i) funky"
            "noEarlierMatch (Group ((?ch # rest) ! (j - i))) funky rel"
        from c consider (one) "c \<in> set new1" | (two) "c \<in> set new2" by auto
        then show "c = pos @ below gp (last c)"
        proof cases
          case one
          then have "last c \<in> set (map last new1)" by simp
          then have "last c \<in> set (topMatches (gp @ [i]) g funky)" by (simp only: n1(2))
          from topMatches_below(1)[OF this] obtain r where r: "last c = (gp @ [i]) @ r" "r \<noteq> []"
            by blast
          with l have ji: "j = i" "rel = r" by simp_all
          from a(3) ji have "noEarlierMatch g funky r" by simp
          from n1(3)[OF one r(1) this] have e: "c = pos @ (gp @ [i]) # below (gp @ [i]) (last c)" .
          have "below gp (last c) = (gp @ [i]) # below (gp @ [i]) (last c)"
            using below_step[OF r(2), of gp i] r(1) by simp
          with e show ?thesis by simp
        next
          case two
          from later[OF two n2(2) l] obtain k where k: "j - i = Suc k" "j - (i + 1) = k" by blast
          from a k have "j - (i + 1) < length rest" "\<not> matchedBefore rest (j - (i + 1)) funky"
            "noEarlierMatch (Group (rest ! (j - (i + 1)))) funky rel" by simp_all
          from n2(3)[OF two l this] show ?thesis .
        qed
      qed
      from res ml ex show ?thesis by blast
    next
      case eq: True
      from "3.IH"(4)[OF _ refl _ refl] True eq obtain new2 where
        n2: "multiSearchRange (pos @ [gp @ [i]]) gp (i + 1) rest funky (locs @ [pos @ [gp @ [i]]])
               = (locs @ [pos @ [gp @ [i]]]) @ new2"
            "map last new2 = topMatchesRange gp (i + 1) rest funky"
        by auto
      have res: "multiSearchRange pos gp i (?ch # rest) funky locs
          = locs @ ((pos @ [gp @ [i]]) # new2)"
        using True eq n2(1) by (simp add: Let_def)
      have ml: "map last ((pos @ [gp @ [i]]) # new2) = topMatchesRange gp i (?ch # rest) funky"
        using True eq n2(2) by simp
      have ex: "\<forall>c\<in>set ((pos @ [gp @ [i]]) # new2). \<forall>j rel. last c = gp @ j # rel \<longrightarrow>
         j - i < length (?ch # rest) \<longrightarrow>
         \<not> matchedBefore (?ch # rest) (j - i) funky \<longrightarrow>
         noEarlierMatch (Group ((?ch # rest) ! (j - i))) funky rel \<longrightarrow>
         c = pos @ below gp (last c)"
      proof (intro ballI allI impI)
        fix c j rel
        assume c: "c \<in> set ((pos @ [gp @ [i]]) # new2)" and l: "last c = gp @ j # rel"
          and a: "j - i < length (?ch # rest)" "\<not> matchedBefore (?ch # rest) (j - i) funky"
            "noEarlierMatch (Group ((?ch # rest) ! (j - i))) funky rel"
        from c consider (one) "c = pos @ [gp @ [i]]" | (two) "c \<in> set new2" by auto
        then show "c = pos @ below gp (last c)"
        proof cases
          case one
          then show ?thesis by (simp add: below_single)
        next
          case two
          from later[OF two n2(2) l] obtain k where k: "j - i = Suc k" by blast
          from a(2) k True eq have False by simp
          then show ?thesis ..
        qed
      qed
      from res ml ex show ?thesis by blast
    qed
  qed
qed

lemma noEarlierMatch_c7_tree:
  "noEarlierMatch c7_tree ''x'' [0] \<and> \<not> noEarlierMatch c7_tree ''x'' [1]"
  by code_simp

section \<open>Lemmas about the file name pattern\<close>

text \<open>
  The equation of the star and the one of the search unfold for ever as rewrite rules;
  they are applied where needed.
\<close>

declare matchRe.simps(7) [simp del]

declare FindStringSubmatch.simps [simp del]

lemma filePartRe_parts: "filePartRe = Seq dirRe (Seq nameRe svgEndRe)"
  by (simp add: filePartRe_def dirRe_def nameRe_def svgEndRe_def tokenRe_def)

lemma star_cls_Nil [simp]: "matchRe (Star (Cls C)) [] c = [([], c)]"
  by (subst matchRe.simps(7)) simp

lemma star_cls_Cons [simp]:
  "matchRe (Star (Cls C)) (y # s) c =
     (if y \<in> set C then matchRe (Star (Cls C)) s c else []) @ [(y # s, c)]"
  by (subst matchRe.simps(7)) simp

lemma matchRe_suffix:
  "(s1, c1) \<in> set (matchRe r s c) \<Longrightarrow> suffix s1 s"
proof (induction r s c arbitrary: s1 c1 rule: matchRe.induct)
  case (1 x s c)
  then show ?case by (auto split: list.splits if_splits simp: suffix_Cons)
next
  case (2 xs s c)
  then show ?case by (auto split: list.splits if_splits simp: suffix_Cons)
next
  case (3 s c)
  then show ?case by (auto split: list.splits if_splits simp: suffix_Cons)
next
  case (4 s c)
  then show ?case by (auto split: if_splits)
next
  case (5 r1 r2 s c)
  from "5.prems" obtain s' c' where
    a: "(s', c') \<in> set (matchRe r1 s c)" "(s1, c1) \<in> set (matchRe r2 s' c')"
    by auto
  from "5.IH"(1)[OF a(1)] "5.IH"(2)[OF a(1) refl a(2)] show ?case
    by (rule suffix_order.trans[rotated])
next
  case (6 r s c)
  then show ?case by auto
next
  case (7 r s c)
  from "7.prems" consider (stop) "s1 = s"
    | (iter) s' c' where "(s', c') \<in> set (matchRe r s c)" "length s' < length s"
        "(s1, c1) \<in> set (matchRe (Star r) s' c')"
    by (auto simp: matchRe.simps(7)[of r s c] split: if_splits)
  then show ?case
  proof cases
    case stop
    then show ?thesis by simp
  next
    case iter
    from "7.IH"(1)[OF iter(1)] "7.IH"(2)[OF iter(1) refl iter(2) iter(3)] show ?thesis
      by (rule suffix_order.trans[rotated])
  qed
next
  case (8 n r s c)
  then show ?case by auto
qed


lemma seq_chr_absent:
  assumes "x \<notin> set s"
  shows "matchRe (Seq r (Chr x)) s c = []"
proof -
  have "\<forall>q\<in>set (matchRe r s c). (case q of (s1, c1) \<Rightarrow> matchRe (Chr x) s1 c1) = []"
  proof
    fix q assume q: "q \<in> set (matchRe r s c)"
    obtain s1 c1 where e: "q = (s1, c1)" by (cases q)
    from matchRe_suffix[of s1 c1 r s c] q e have "set s1 \<subseteq> set s"
      by (auto dest: set_mono_suffix)
    with assms have "x \<notin> set s1" by blast
    then have "matchRe (Chr x) s1 c1 = []" by (cases s1) auto
    with e show "(case q of (s1, c1) \<Rightarrow> matchRe (Chr x) s1 c1) = []" by simp
  qed
  then show ?thesis by (simp del: matchRe.simps(1))
qed

lemma dirRe_absent:
  assumes "CHR ''/'' \<notin> set s"
  shows "matchRe dirRe s c = [(s, c)]"
proof -
  have "matchRe (Seq (Star AnyNoNL) (Chr CHR ''/'')) s c = []"
    by (rule seq_chr_absent[OF assms])
  then show ?thesis by (simp add: dirRe_def del: matchRe.simps(5))
qed

lemma hex5_match: "isHexID h \<Longrightarrow> matchRe hex5 (h @ rest) c = [(rest, c)]"
proof -
  assume a: "isHexID h"
  then obtain a1 a2 a3 a4 a5 where h: "h = [a1, a2, a3, a4, a5]"
    by (auto simp: isHexID_def length_Suc_conv eval_nat_numeral)
  with a show ?thesis by (simp add: isHexID_def hex5_def)
qed

lemma star_cls_head:
  "set t \<subseteq> set C \<Longrightarrow> rest = [] \<or> hd rest \<notin> set C \<Longrightarrow>
     \<exists>tl. matchRe (Star (Cls C)) (t @ rest) c = (rest, c) # tl"
proof (induction t)
  case Nil
  then show ?case by (cases rest) auto
next
  case (Cons a t)
  then obtain tl where "matchRe (Star (Cls C)) (t @ rest) c = (rest, c) # tl" by auto
  with Cons.prems show ?case by simp
qed

lemma tokenRe_head:
  assumes "isToken t" and "rest = [] \<or> hd rest \<notin> set alnums"
  shows "\<exists>tl. matchRe tokenRe (t @ rest) c = (rest, c) # tl"
proof -
  from assms(1) obtain a t' where t: "t = a # t'" "a \<in> set letters" "set t' \<subseteq> set alnums"
    by (cases t) (auto simp: isToken_def)
  from star_cls_head[OF t(3) assms(2), of c] obtain tl where
    "matchRe (Star (Cls alnums)) (t' @ rest) c = (rest, c) # tl" by blast
  with t show ?thesis by (simp add: tokenRe_def)
qed

lemma nameRe_plain:
  assumes "isHexID h" and "rest = [] \<or> hd rest \<noteq> CHR ''-''"
  shows "matchRe nameRe (h @ rest) c = [(rest, (1, h) # (2, h) # c)]"
proof -
  have "matchRe (Chr CHR ''-'') rest ((2, h) # c) = []"
    using assms(2) by (cases rest) auto
  then show ?thesis
    using hex5_match[OF assms(1)] by (simp add: nameRe_def)
qed

lemma nameRe_variant:
  assumes "isHexID h" and "isToken t" and "rest = [] \<or> hd rest \<notin> set alnums"
  shows "\<exists>tl. matchRe nameRe (h @ CHR ''-'' # t @ rest) c =
           (rest, (1, h @ CHR ''-'' # t) # (3, t) # (2, h) # c) # tl"
proof -
  from tokenRe_head[OF assms(2) assms(3), of "(2, h) # c"] obtain tl where
    "matchRe tokenRe (t @ rest) ((2, h) # c) = (rest, (2, h) # c) # tl" by blast
  then show ?thesis
    using hex5_match[OF assms(1), of "CHR ''-'' # t @ rest" c]
    by (simp add: nameRe_def)
qed

lemma svgEndRe_match: "matchRe svgEndRe ''.svg'' c = [([], c)]"
  by (simp add: svgEndRe_def)

lemma hex_no_slash: "isHexID h \<Longrightarrow> CHR ''/'' \<notin> set h"
  by (auto simp: isHexID_def hexDigits_def)

lemma token_no_slash: "isToken t \<Longrightarrow> CHR ''/'' \<notin> set t"
  by (cases t) (auto simp: isToken_def alnums_def letters_def)

lemma match_plain:
  assumes "isHexID h"
  shows "matchRe filePartRe (h @ ''.svg'') [] = [([], [(1, h), (2, h)])]"
proof -
  have ns: "CHR ''/'' \<notin> set (h @ ''.svg'')" using hex_no_slash[OF assms] by simp
  have n: "matchRe nameRe (h @ ''.svg'') [] = [(''.svg'', [(1, h), (2, h)])]"
    by (rule nameRe_plain[OF assms]) simp
  show ?thesis
    unfolding filePartRe_parts
    using dirRe_absent[OF ns, of "[]"] n svgEndRe_match by simp
qed

lemma match_variant:
  assumes "isHexID h" and "isToken t"
  shows "\<exists>tl. matchRe filePartRe (h @ ''-'' @ t @ ''.svg'') [] =
           ([], [(1, h @ ''-'' @ t), (3, t), (2, h)]) # tl"
proof -
  have ns: "CHR ''/'' \<notin> set (h @ ''-'' @ t @ ''.svg'')"
    using hex_no_slash[OF assms(1)] token_no_slash[OF assms(2)] by simp
  have "hd ''.svg'' \<notin> set alnums" by (simp add: alnums_def)
  then have "''.svg'' = [] \<or> hd ''.svg'' \<notin> set alnums" by blast
  from nameRe_variant[OF assms this, of "[]"] obtain tl where
    n: "matchRe nameRe (h @ CHR ''-'' # t @ ''.svg'') [] =
          (''.svg'', [(1, h @ CHR ''-'' # t), (3, t), (2, h)]) # tl" by blast
  show ?thesis
    unfolding filePartRe_parts
    using dirRe_absent[OF ns, of "[]"] n svgEndRe_match by simp
qed

lemma find_plain:
  assumes "isHexID h"
  shows "FindStringSubmatch filePartRe (h @ ''.svg'') = Some [(1, h), (2, h)]"
  using match_plain[OF assms] by (subst FindStringSubmatch.simps) simp

lemma find_variant:
  assumes "isHexID h" and "isToken t"
  shows "FindStringSubmatch filePartRe (h @ ''-'' @ t @ ''.svg'') =
           Some [(1, h @ ''-'' @ t), (3, t), (2, h)]"
  using match_variant[OF assms] by (subst FindStringSubmatch.simps) auto

lemma matchRe_capFree:
  "(s1, c1) \<in> set (matchRe r s c) \<Longrightarrow> capFree r \<Longrightarrow> c1 = c"
proof (induction r s c arbitrary: s1 c1 rule: matchRe.induct)
  case (1 x s c)
  then show ?case by (auto split: list.splits if_splits)
next
  case (2 xs s c)
  then show ?case by (auto split: list.splits if_splits)
next
  case (3 s c)
  then show ?case by (auto split: list.splits if_splits)
next
  case (4 s c)
  then show ?case by (auto split: if_splits)
next
  case (5 r1 r2 s c)
  from "5.prems" obtain s' c' where
    a: "(s', c') \<in> set (matchRe r1 s c)" "(s1, c1) \<in> set (matchRe r2 s' c')"
    by auto
  from "5.prems"(2) have f: "capFree r1" "capFree r2" by simp_all
  from "5.IH"(1)[OF a(1) f(1)] "5.IH"(2)[OF a(1) refl a(2) f(2)] show ?case by simp
next
  case (6 r s c)
  then show ?case by auto
next
  case (7 r s c)
  from "7.prems"(2) have f: "capFree r" by simp
  from "7.prems"(1) consider (stop) "c1 = c"
    | (iter) s' c' where "(s', c') \<in> set (matchRe r s c)" "length s' < length s"
        "(s1, c1) \<in> set (matchRe (Star r) s' c')"
    by (auto simp: matchRe.simps(7)[of r s c] split: if_splits)
  then show ?case
  proof cases
    case stop
    then show ?thesis .
  next
    case iter
    from "7.IH"(1)[OF iter(1) f] "7.IH"(2)[OF iter(1) refl iter(2) iter(3) "7.prems"(2)]
    show ?thesis by simp
  qed
next
  case (8 n r s c)
  then show ?case by simp
qed

lemma star_cls_sound:
  "(s1, c1) \<in> set (matchRe (Star (Cls C)) s c) \<Longrightarrow> \<exists>w. s = w @ s1 \<and> set w \<subseteq> set C"
proof (induction s)
  case Nil
  then show ?case by simp
next
  case (Cons y s)
  from Cons.prems consider (stop) "s1 = y # s"
    | (iter) "y \<in> set C" "(s1, c1) \<in> set (matchRe (Star (Cls C)) s c)"
    by (auto split: if_splits)
  then show ?case
  proof cases
    case stop
    then show ?thesis by (intro exI[of _ "[]"]) simp
  next
    case iter
    from Cons.IH[OF iter(2)] obtain w where "s = w @ s1" "set w \<subseteq> set C" by blast
    with iter(1) show ?thesis by (intro exI[of _ "y # w"]) simp
  qed
qed

lemma hex5_sound:
  "(s1, c1) \<in> set (matchRe hex5 s c) \<Longrightarrow> \<exists>h. s = h @ s1 \<and> isHexID h"
proof -
  assume "(s1, c1) \<in> set (matchRe hex5 s c)"
  then obtain a1 a2 a3 a4 a5 where
    "s = a1 # a2 # a3 # a4 # a5 # s1" "{a1, a2, a3, a4, a5} \<subseteq> set hexDigits"
    by (auto simp: hex5_def split: list.splits if_splits)
  then show ?thesis by (intro exI[of _ "[a1, a2, a3, a4, a5]"]) (simp add: isHexID_def)
qed

lemma tokenRe_sound:
  "(s1, c1) \<in> set (matchRe tokenRe s c) \<Longrightarrow> \<exists>t. s = t @ s1 \<and> isToken t"
proof -
  assume "(s1, c1) \<in> set (matchRe tokenRe s c)"
  then obtain a s' where
    a: "s = a # s'" "a \<in> set letters" "(s1, c1) \<in> set (matchRe (Star (Cls alnums)) s' c)"
    by (auto simp: tokenRe_def split: list.splits if_splits)
  from star_cls_sound[OF a(3)] obtain w where "s' = w @ s1" "set w \<subseteq> set alnums" by blast
  with a show ?thesis by (intro exI[of _ "a # w"]) (simp add: isToken_def)
qed

lemma capFree_parts [simp]: "capFree hex5" "capFree tokenRe" "capFree svgEndRe" "capFree dirRe"
  by (simp_all add: hex5_def tokenRe_def svgEndRe_def dirRe_def)

lemma svgEndRe_sound:
  "(s1, c1) \<in> set (matchRe svgEndRe s c) \<Longrightarrow> s = ''.svg'' \<and> s1 = [] \<and> c1 = c"
  by (auto simp: svgEndRe_def split: list.splits if_splits)


lemma cap_sound:
  "(s1, c1) \<in> set (matchRe (Cap n r) s c) \<Longrightarrow>
     \<exists>c'. (s1, c') \<in> set (matchRe r s c) \<and> c1 = (n, take (length s - length s1) s) # c'"
  by auto

lemma seq_sound:
  "(s1, c1) \<in> set (matchRe (Seq r1 r2) s c) \<Longrightarrow>
     \<exists>s2 c2. (s2, c2) \<in> set (matchRe r1 s c) \<and> (s1, c1) \<in> set (matchRe r2 s2 c2)"
  by auto

lemma opt_sound:
  "(s1, c1) \<in> set (matchRe (Opt r) s c) \<Longrightarrow>
     (s1 = s \<and> c1 = c) \<or> (s1, c1) \<in> set (matchRe r s c)"
  by auto

lemma chr_sound:
  "(s1, c1) \<in> set (matchRe (Chr x) s c) \<Longrightarrow> s = x # s1 \<and> c1 = c"
  by (auto split: list.splits if_splits)

lemma nameRe_sound:
  assumes "(s1, c1) \<in> set (matchRe nameRe s c)"
  shows "\<exists>h suf. s = h @ suf @ s1 \<and> isHexID h \<and> isSuffix suf \<and>
           c1 = (1, h @ suf) # (if suf = [] then [] else [(3, tl suf)]) @ (2, h) # c"
proof -
  let ?opt = "Opt (Seq (Chr CHR ''-'') (Cap 3 tokenRe))"
  from cap_sound[OF assms[unfolded nameRe_def]] obtain c' where
    o: "(s1, c') \<in> set (matchRe (Seq (Cap 2 hex5) ?opt) s c)"
       "c1 = (1, take (length s - length s1) s) # c'"
    by blast
  from seq_sound[OF o(1)] obtain s2 c2 where
    i: "(s2, c2) \<in> set (matchRe (Cap 2 hex5) s c)" "(s1, c') \<in> set (matchRe ?opt s2 c2)"
    by blast
  from cap_sound[OF i(1)] obtain c'' where
    h0: "(s2, c'') \<in> set (matchRe hex5 s c)" "c2 = (2, take (length s - length s2) s) # c''"
    by blast
  from matchRe_capFree[OF h0(1)] have cc: "c'' = c" by simp
  from hex5_sound[OF h0(1)] obtain h where h: "s = h @ s2" "isHexID h" by blast
  from h0(2) cc h(1) have c2: "c2 = (2, h) # c" by simp
  from opt_sound[OF i(2)] consider (skip) "s1 = s2" "c' = c2"
    | (taken) "(s1, c') \<in> set (matchRe (Seq (Chr CHR ''-'') (Cap 3 tokenRe)) s2 c2)"
    by blast
  then show ?thesis
  proof cases
    case skip
    with o(2) h c2 show ?thesis
      by (intro exI[of _ h] exI[of _ "[]"]) (simp add: isSuffix_def)
  next
    case taken
    from seq_sound[OF this] obtain s3 c3' where
      t00: "(s3, c3') \<in> set (matchRe (Chr CHR ''-'') s2 c2)"
           "(s1, c') \<in> set (matchRe (Cap 3 tokenRe) s3 c3')"
      by blast
    from chr_sound[OF t00(1)] t00(2) have
      t0: "s2 = CHR ''-'' # s3" "(s1, c') \<in> set (matchRe (Cap 3 tokenRe) s3 c2)"
      by simp_all
    from cap_sound[OF t0(2)] obtain c3 where
      t1: "(s1, c3) \<in> set (matchRe tokenRe s3 c2)" "c' = (3, take (length s3 - length s1) s3) # c3"
      by blast
    from matchRe_capFree[OF t1(1)] have c3: "c3 = c2" by simp
    from tokenRe_sound[OF t1(1)] obtain t where t: "s3 = t @ s1" "isToken t" by blast
    have s: "s = h @ (CHR ''-'' # t) @ s1" using h(1) t0(1) t(1) by simp
    have "take (length s - length s1) s = h @ CHR ''-'' # t" unfolding s by simp
    with o(2) t1(2) c3 c2 t(1) have "c1 = (1, h @ CHR ''-'' # t) # (3, t) # (2, h) # c" by simp
    with s h(2) t(2) show ?thesis
      by (intro exI[of _ h] exI[of _ "CHR ''-'' # t"]) (simp add: isSuffix_def)
  qed
qed

lemma filePartRe_sound:
  assumes "(s1, c1) \<in> set (matchRe filePartRe s [])"
  shows "\<exists>pre h suf. s = pre @ h @ suf @ ''.svg'' \<and> isHexID h \<and> isSuffix suf \<and>
           submatch c1 1 = h @ suf \<and> submatch c1 2 = h \<and> submatch c1 3 = tl suf"
proof -
  from seq_sound[OF assms[unfolded filePartRe_parts]] obtain s2 c2 where
    d: "(s2, c2) \<in> set (matchRe dirRe s [])" "(s1, c1) \<in> set (matchRe (Seq nameRe svgEndRe) s2 c2)"
    by blast
  from matchRe_capFree[OF d(1)] have c2: "c2 = []" by simp
  from matchRe_suffix[OF d(1)] obtain pre where pre: "s = pre @ s2" by (auto simp: suffix_def)
  from seq_sound[OF d(2)] obtain s3 c3 where
    n: "(s3, c3) \<in> set (matchRe nameRe s2 c2)" "(s1, c1) \<in> set (matchRe svgEndRe s3 c3)"
    by blast
  from svgEndRe_sound[OF n(2)] have e: "s3 = ''.svg''" "c1 = c3" by simp_all
  from nameRe_sound[OF n(1)] obtain h suf where
    m: "s2 = h @ suf @ s3" "isHexID h" "isSuffix suf"
       "c3 = (1, h @ suf) # (if suf = [] then [] else [(3, tl suf)]) @ (2, h) # c2"
    by blast
  have "submatch c1 1 = h @ suf \<and> submatch c1 2 = h \<and> submatch c1 3 = tl suf"
    using m(4) e(2) c2 by (simp add: submatch_def)
  with pre m(1,2,3) e(1) show ?thesis
    by (intro exI[of _ pre] exI[of _ h] exI[of _ suf]) simp
qed

lemma find_sound:
  "FindStringSubmatch r s = Some c \<Longrightarrow>
     \<exists>pre s' rest. s = pre @ s' \<and> (rest, c) \<in> set (matchRe r s' [])"
proof (induction s)
  case Nil
  then obtain rest where "(rest, c) \<in> set (matchRe r [] [])"
    by (subst (asm) FindStringSubmatch.simps) (auto split: list.splits)
  then show ?case by (intro exI[of _ "[]"] exI[of _ "[]"] exI[of _ rest]) simp
next
  case (Cons a s)
  show ?case
  proof (cases "matchRe r (a # s) []")
    case Nil
    with Cons.prems have "FindStringSubmatch r s = Some c"
      by (subst (asm) FindStringSubmatch.simps) simp
    from Cons.IH[OF this] obtain pre s' rest where "s = pre @ s'" "(rest, c) \<in> set (matchRe r s' [])"
      by blast
    then show ?thesis by (intro exI[of _ "a # pre"] exI[of _ s'] exI[of _ rest]) simp
  next
    case (Cons x xs)
    obtain rest c' where x: "x = (rest, c')" by (cases x)
    with Cons Cons.prems have "c' = c" by (subst (asm) FindStringSubmatch.simps) simp
    with Cons x have "(rest, c) \<in> set (matchRe r (a # s) [])" by simp
    then show ?thesis by (intro exI[of _ "[]"] exI[of _ "a # s"] exI[of _ rest]) simp
  qed
qed

lemma find_complete:
  "matchRe r s' [] \<noteq> [] \<Longrightarrow> \<exists>c. FindStringSubmatch r (pre @ s') = Some c"
proof (induction pre)
  case Nil
  then obtain x xs where "matchRe r s' [] = x # xs" by (cases "matchRe r s' []") auto
  then show ?case by (subst FindStringSubmatch.simps) (cases x, simp)
next
  case (Cons a pre)
  show ?case
  proof (cases "matchRe r (a # pre @ s') []")
    case Nil
    with Cons.IH[OF Cons.prems] show ?thesis by (subst FindStringSubmatch.simps) simp
  next
    case (Cons x xs)
    then show ?thesis by (subst FindStringSubmatch.simps) (cases x, simp)
  qed
qed


lemma hexDigitVal_hex:
  "a \<in> set hexDigits \<Longrightarrow> \<exists>d. hexDigitVal a = Some d \<and> 0 \<le> d \<and> d \<le> 15"
  by (auto simp: hexDigits_def hexDigitVal_def)

lemma HexIDToNum_hex:
  assumes "isHexID h"
  shows "\<exists>n. HexIDToNum h = Inr n \<and> 0 \<le> n \<and> n < 1048576"
proof -
  from assms obtain a1 a2 a3 a4 a5 where h: "h = [a1, a2, a3, a4, a5]"
    by (auto simp: isHexID_def length_Suc_conv eval_nat_numeral)
  with assms have m: "a1 \<in> set hexDigits" "a2 \<in> set hexDigits" "a3 \<in> set hexDigits"
    "a4 \<in> set hexDigits" "a5 \<in> set hexDigits"
    by (simp_all add: isHexID_def)
  from m(1) have sgn: "a1 \<noteq> CHR ''-''" "a1 \<noteq> CHR ''+''" by (auto simp: hexDigits_def)
  from hexDigitVal_hex[OF m(1)] obtain d1 where d1: "hexDigitVal a1 = Some d1" "0 \<le> d1" "d1 \<le> 15" by blast
  from hexDigitVal_hex[OF m(2)] obtain d2 where d2: "hexDigitVal a2 = Some d2" "0 \<le> d2" "d2 \<le> 15" by blast
  from hexDigitVal_hex[OF m(3)] obtain d3 where d3: "hexDigitVal a3 = Some d3" "0 \<le> d3" "d3 \<le> 15" by blast
  from hexDigitVal_hex[OF m(4)] obtain d4 where d4: "hexDigitVal a4 = Some d4" "0 \<le> d4" "d4 \<le> 15" by blast
  from hexDigitVal_hex[OF m(5)] obtain d5 where d5: "hexDigitVal a5 = Some d5" "0 \<le> d5" "d5 \<le> 15" by blast
  define v where "v = 16 * (16 * (16 * (16 * d1 + d2) + d3) + d4) + d5"
  have v: "hexDigitsVal 0 h = Some v" by (simp add: h d1 d2 d3 d4 d5 v_def)
  have r: "0 \<le> v" "v < 1048576" using d1 d2 d3 d4 d5 by (simp_all add: v_def)
  then have "- (2 ^ 63) \<le> v \<and> v < 2 ^ 63" by simp
  with v sgn have "HexIDToNum h = Inr v"
    by (simp add: HexIDToNum_def ParseIntHex_def h)
  with r show ?thesis by blast
qed

lemma FileToParts_None:
  "FindStringSubmatch filePartRe s = None \<Longrightarrow> FileToParts s = Inr ([], 0, [])"
  by (simp add: FileToParts_def)

lemma FileToParts_Some:
  assumes "FindStringSubmatch filePartRe s = Some c"
  shows "\<exists>pre h suf n. s = pre @ h @ suf @ ''.svg'' \<and> isHexID h \<and> isSuffix suf \<and>
           HexIDToNum h = Inr n \<and> FileToParts s = Inr (h @ suf, n, tl suf)"
proof -
  from find_sound[OF assms] obtain p s' rest where
    f: "s = p @ s'" "(rest, c) \<in> set (matchRe filePartRe s' [])" by blast
  from filePartRe_sound[OF f(2)] obtain pre h suf where
    m: "s' = pre @ h @ suf @ ''.svg''" "isHexID h" "isSuffix suf"
       "submatch c 1 = h @ suf" "submatch c 2 = h" "submatch c 3 = tl suf"
    by blast
  from HexIDToNum_hex[OF m(2)] obtain n where n: "HexIDToNum h = Inr n" by blast
  have "FileToParts s = Inr (h @ suf, n, tl suf)"
    using assms m(4,5,6) n by (simp add: FileToParts_def)
  with f(1) m(1,2,3) n show ?thesis
    by (intro exI[of _ "p @ pre"] exI[of _ h] exI[of _ suf] exI[of _ n]) simp
qed

lemma hex_not_empty: "isHexID h \<Longrightarrow> h \<noteq> []"
  by (auto simp: isHexID_def)

section \<open>Claims\<close>

text \<open>
  C1 (as amended). For every document whose base group exists and has no text child
  anywhere below it, \<^verbatim>\<open>SetBase\<close> (for a base that starts with \<^verbatim>\<open>kvg:\<close>) and
  \<^verbatim>\<open>RenumberXML\<close> (for a document with two top-level groups) return, and in the result
  the groups below the base group carry, in depth-first document order, the identifiers
  base-g1, base-g2, ... and the paths the identifiers base-s1, base-s2, ...: one walk,
  two counters that start at 0 and are shared by the whole subtree. \<^verbatim>\<open>SetBase\<close> also
  sets the identifier of the base group to the new base; \<^verbatim>\<open>RenumberXML\<close> keeps it.
\<close>

theorem renumber_walk_numbers:
  assumes "BaseGroup kvg = Inr b" and "noTextBelow b"
  shows "(4 \<le> length base \<and> take 4 base = ''kvg:'' \<longrightarrow>
           (\<exists>kvg' b'. SetBase kvg base = Inr kvg' \<and> BaseGroup kvg' = Inr b' \<and>
              ID (Attrs b') = base \<and> walkNumbers base b b')) \<and>
         (2 \<le> length (Groups kvg) \<longrightarrow>
           (\<exists>kvg' b'. RenumberXML kvg = Inr kvg' \<and> BaseGroup kvg' = Inr b' \<and>
              ID (Attrs b') = ID (Attrs b) \<and> walkNumbers (ID (Attrs b)) b b'))"
proof (intro conjI impI)
  assume pre: "4 \<le> length base \<and> take 4 base = ''kvg:''"
  obtain cs st where r: "renumberChildren base (Children b) (0, 0) = (cs, st)"
    by (cases "renumberChildren base (Children b) (0, 0)")
  from SetBase_result[OF assms(1) _ _ r] pre obtain kvg' where
    k: "SetBase kvg base = Inr kvg'" "BaseGroup kvg' = Inr (setChildren cs (setID base b))"
    by blast
  from walk_from_zero[OF assms(2) r] have "walkNumbers base b (setChildren cs (setID base b))" .
  with k show "\<exists>kvg' b'. SetBase kvg base = Inr kvg' \<and> BaseGroup kvg' = Inr b' \<and>
              ID (Attrs b') = base \<and> walkNumbers base b b'"
    by (intro exI[of _ kvg'] exI[of _ "setChildren cs (setID base b)"]) simp
next
  assume two: "2 \<le> length (Groups kvg)"
  obtain cs st where r: "renumberChildren (ID (Attrs b)) (Children b) (0, 0) = (cs, st)"
    by (cases "renumberChildren (ID (Attrs b)) (Children b) (0, 0)")
  from RenumberXML_result[OF assms(1) two r] obtain kvg' where
    k: "RenumberXML kvg = Inr kvg'" "BaseGroup kvg' = Inr (setChildren cs b)"
    by blast
  from walk_from_zero[OF assms(2) r] have "walkNumbers (ID (Attrs b)) b (setChildren cs b)" .
  with k show "\<exists>kvg' b'. RenumberXML kvg = Inr kvg' \<and> BaseGroup kvg' = Inr b' \<and>
              ID (Attrs b') = ID (Attrs b) \<and> walkNumbers (ID (Attrs b)) b b'"
    by (intro exI[of _ kvg'] exI[of _ "setChildren cs b"]) simp
qed

text \<open>
  The instance of the specification's example: base \<^verbatim>\<open>kvg:09999\<close>, children
  [Path, Group[Path, Path], Path]. The nested group becomes \<^verbatim>\<open>kvg:09999-g1\<close> and the
  four paths \<^verbatim>\<open>-s1\<close> to \<^verbatim>\<open>-s4\<close>.
\<close>

theorem renumber_walk_numbers_witness:
  "BaseGroup c1_doc = Inr c1_base \<and> noTextBelow c1_base \<and>
   (\<exists>kvg' b'. SetBase c1_doc ''kvg:09999'' = Inr kvg' \<and> BaseGroup kvg' = Inr b' \<and>
      map (\<lambda>g. ID (Attrs g)) (groupsInOrder b') = [''kvg:09999-g1''] \<and>
      map Path_ID (pathsInOrder b') =
        [''kvg:09999-s1'', ''kvg:09999-s2'', ''kvg:09999-s3'', ''kvg:09999-s4'']) \<and>
   (\<exists>kvg' b'. RenumberXML c1_doc = Inr kvg' \<and> BaseGroup kvg' = Inr b' \<and>
      map (\<lambda>g. ID (Attrs g)) (groupsInOrder b') = [''kvg:09999-g1''] \<and>
      map Path_ID (pathsInOrder b') =
        [''kvg:09999-s1'', ''kvg:09999-s2'', ''kvg:09999-s3'', ''kvg:09999-s4''])"
proof -
  have h1: "BaseGroup c1_doc = Inr c1_base" by code_simp
  have h2: "noTextBelow c1_base" by code_simp
  have b: "ID (Attrs c1_base) = ''kvg:09999''" by code_simp
  have p: "4 \<le> length ''kvg:09999'' \<and> take 4 ''kvg:09999'' = ''kvg:''" by simp
  have q: "2 \<le> length (Groups c1_doc)" by code_simp
  have g: "map (groupID ''kvg:09999'') [1..<Suc (length (groupsInOrder c1_base))] = [''kvg:09999-g1'']"
    by code_simp
  have s: "map (pathID ''kvg:09999'') [1..<Suc (length (pathsInOrder c1_base))] =
      [''kvg:09999-s1'', ''kvg:09999-s2'', ''kvg:09999-s3'', ''kvg:09999-s4'']"
    by code_simp
  note t = renumber_walk_numbers[OF h1 h2, of "''kvg:09999''", unfolded walkNumbers_def b g s]
  from conjunct1[OF t, THEN mp, OF p] obtain k1 b1 where
    A: "SetBase c1_doc ''kvg:09999'' = Inr k1" "BaseGroup k1 = Inr b1"
       "map (\<lambda>g. ID (Attrs g)) (groupsInOrder b1) = [''kvg:09999-g1'']"
       "map Path_ID (pathsInOrder b1) =
          [''kvg:09999-s1'', ''kvg:09999-s2'', ''kvg:09999-s3'', ''kvg:09999-s4'']"
    by auto
  from conjunct2[OF t, THEN mp, OF q] obtain k2 b2 where
    B: "RenumberXML c1_doc = Inr k2" "BaseGroup k2 = Inr b2"
       "map (\<lambda>g. ID (Attrs g)) (groupsInOrder b2) = [''kvg:09999-g1'']"
       "map Path_ID (pathsInOrder b2) =
          [''kvg:09999-s1'', ''kvg:09999-s2'', ''kvg:09999-s3'', ''kvg:09999-s4'']"
    by auto
  from A have A': "\<exists>kvg' b'. SetBase c1_doc ''kvg:09999'' = Inr kvg' \<and> BaseGroup kvg' = Inr b' \<and>
      map (\<lambda>g. ID (Attrs g)) (groupsInOrder b') = [''kvg:09999-g1''] \<and>
      map Path_ID (pathsInOrder b') =
        [''kvg:09999-s1'', ''kvg:09999-s2'', ''kvg:09999-s3'', ''kvg:09999-s4'']"
    by (intro exI[of _ k1] exI[of _ b1] conjI)
  from B have B': "\<exists>kvg' b'. RenumberXML c1_doc = Inr kvg' \<and> BaseGroup kvg' = Inr b' \<and>
      map (\<lambda>g. ID (Attrs g)) (groupsInOrder b') = [''kvg:09999-g1''] \<and>
      map Path_ID (pathsInOrder b') =
        [''kvg:09999-s1'', ''kvg:09999-s2'', ''kvg:09999-s3'', ''kvg:09999-s4'']"
    by (intro exI[of _ k2] exI[of _ b2] conjI)
  show ?thesis by (rule conjI[OF h1 conjI[OF h2 conjI[OF A' B']]])
qed

text \<open>
  C1 as stated fails when a text child stands below the base group: \<^verbatim>\<open>renumber\<close>
  counts it with the path counter, so the only path of this document, the first in
  document order, becomes \<^verbatim>\<open>kvg:09999-s2\<close>.
\<close>

theorem renumber_walk_text_counterexample:
  "pathIDsOf (SetBase c1_text_doc ''kvg:09999'') = [''kvg:09999-s2''] \<and>
   pathIDsOf (RenumberXML c1_text_doc) = [''kvg:09999-s2'']"
  by code_simp

text \<open>
  C2 (the code departs from the claim). Encoding a decoded document that has no
  stroke-numbers group produces no bytes to decode again: \<^verbatim>\<open>MakeXML\<close> panics in the
  label pass before it marshals, whatever the marshaller and the heading are.
\<close>

theorem round_trip_encode_panics:
  "MakeXML MarshalIndent Heading c2_doc = Inl IndexOutOfRange"
proof -
  have "length (Groups c2_doc) < 2" by (simp add: c2_doc_def svgOf_def)
  from RenumberXML_short[OF this] show ?thesis by (simp add: MakeXML_def)
qed

text \<open>
  C3 (the code departs from the claim). A document with a single top-level group: the
  label pass indexes \<^verbatim>\<open>kvg.Groups[1]\<close> without a length check and panics, and so do
  \<^verbatim>\<open>RenumberXML\<close> and \<^verbatim>\<open>MakeXML\<close>, whatever the marshaller and the heading are.
\<close>

theorem encode_single_group_panics:
  "RenumberLabels c3_doc = Inl IndexOutOfRange \<and>
   RenumberXML c3_doc = Inl IndexOutOfRange \<and>
   MakeXML MarshalIndent Heading c3_doc = Inl IndexOutOfRange"
proof -
  have l: "RenumberLabels c3_doc = Inl IndexOutOfRange" by code_simp
  have r: "RenumberXML c3_doc = Inl IndexOutOfRange" by code_simp
  show ?thesis using l r by (simp add: MakeXML_def)
qed

text \<open>
  C4 (the code departs from the claim). \<^verbatim>\<open>removeChildStyles\<close> assigns to copies, so
  the style attributes of the groups below the first top-level group are what they were:
  here \<^verbatim>\<open>fill:red\<close> on the base group and \<^verbatim>\<open>stroke:blue\<close> on the group below it, after
  \<^verbatim>\<open>SetStyle\<close> and after \<^verbatim>\<open>RenumberXML\<close>.
\<close>

theorem style_pass_keeps_child_styles:
  "stylesBelowFirst (SetStyle c4_doc) = [''fill:red'', ''stroke:blue''] \<and>
   stylesBelowFirst (RenumberXML c4_doc) = [''fill:red'', ''stroke:blue'']"
  by code_simp

text \<open>
  C5 (as amended). For every document and every base of at least four bytes that does
  not begin with \<^verbatim>\<open>kvg:\<close>, \<^verbatim>\<open>SetBase\<close> does not return: it ends the calling process
  through \<^verbatim>\<open>log.Fatalf\<close> with the message that names the base.
\<close>

theorem SetBase_bad_prefix_exits:
  "4 \<le> length base \<Longrightarrow> take 4 base \<noteq> ''kvg:'' \<Longrightarrow>
     SetBase kvg base = Inl (FatalExit (fatalBaseName base)) \<and> \<not> returnsToCaller (SetBase kvg base)"
  by (simp add: SetBase_def returnsToCaller_def)

theorem SetBase_bad_prefix_exits_witness:
  "4 \<le> length ''svg:09999'' \<and> take 4 ''svg:09999'' \<noteq> ''kvg:'' \<and>
   SetBase c1_doc ''svg:09999'' = Inl (FatalExit (fatalBaseName ''svg:09999'')) \<and>
   \<not> returnsToCaller (SetBase c1_doc ''svg:09999'')"
  using SetBase_bad_prefix_exits[of "''svg:09999''" c1_doc] by (simp add: returnsToCaller_def)

text \<open>
  C5 as stated fails: for the base \<^verbatim>\<open>09999\<close> no error value comes back to the caller,
  the process exits.
\<close>

theorem SetBase_no_error_result_counterexample:
  "SetBase c1_doc ''09999'' = Inl (FatalExit (fatalBaseName ''09999'')) \<and>
   \<not> returnsToCaller (SetBase c1_doc ''09999'')"
  by (simp add: SetBase_def returnsToCaller_def)

text \<open>
  C6. When \<^verbatim>\<open>RenumberXML\<close> returns, applying it to its result returns the same
  document again: every identifier, style attribute and label is as after the first
  application. The identifiers below the base group are determined by the base
  identifier and the shape of the tree alone: two documents with the same base and the
  same shape below the base group end with the same identifiers.
\<close>

theorem renumber_idempotent:
  assumes "RenumberXML d = Inr d1"
  shows "RenumberXML d1 = Inr d1 \<and>
         (\<forall>e e1. RenumberXML e = Inr e1 \<and> Base e = Base d \<and> baseShape e = baseShape d
            \<longrightarrow> baseIDs e1 = baseIDs d1)"
proof (intro conjI allI impI)
  show "RenumberXML d1 = Inr d1" by (rule RenumberXML_idem[OF assms])
next
  fix e e1
  assume a: "RenumberXML e = Inr e1 \<and> Base e = Base d \<and> baseShape e = baseShape d"
  from RenumberXML_InrD[OF assms] obtain b where b: "BaseGroup d = Inr b"
    by (auto simp: BaseGroup_def)
  from a RenumberXML_InrD[of e e1] obtain c where c: "BaseGroup e = Inr c"
    by (auto simp: BaseGroup_def)
  from a b c have eq: "ID (Attrs c) = ID (Attrs b)" "shapeCs (Children c) = shapeCs (Children b)"
    by (simp_all add: Base_def baseShape_def Let_def)
  from RenumberXML_baseIDs[OF assms b] RenumberXML_baseIDs[OF conjunct1[OF a] c] eq
  show "baseIDs e1 = baseIDs d1" by simp
qed

theorem renumber_idempotent_witness:
  "\<exists>d1 e1. RenumberXML c1_doc = Inr d1 \<and> RenumberXML d1 = Inr d1 \<and>
     RenumberXML c6_doc = Inr e1 \<and> Base c6_doc = Base c1_doc \<and>
     baseShape c6_doc = baseShape c1_doc \<and> baseIDs e1 = baseIDs d1"
proof -
  have b1: "BaseGroup c1_doc = Inr c1_base" by code_simp
  have t1: "2 \<le> length (Groups c1_doc)" by code_simp
  obtain cs1 st1 where
    "renumberChildren (ID (Attrs c1_base)) (Children c1_base) (0, 0) = (cs1, st1)"
    by (cases "renumberChildren (ID (Attrs c1_base)) (Children c1_base) (0, 0)")
  from RenumberXML_result[OF b1 t1 this] obtain d1 where d1: "RenumberXML c1_doc = Inr d1"
    by blast
  have b2: "BaseGroup c6_doc = Inr c6_base" by code_simp
  have t2: "2 \<le> length (Groups c6_doc)" by code_simp
  obtain cs2 st2 where
    "renumberChildren (ID (Attrs c6_base)) (Children c6_base) (0, 0) = (cs2, st2)"
    by (cases "renumberChildren (ID (Attrs c6_base)) (Children c6_base) (0, 0)")
  from RenumberXML_result[OF b2 t2 this] obtain e1 where e1: "RenumberXML c6_doc = Inr e1"
    by blast
  have s: "Base c6_doc = Base c1_doc" by code_simp
  have h: "baseShape c6_doc = baseShape c1_doc" by code_simp
  from renumber_idempotent[OF d1] e1 s h
  have "RenumberXML d1 = Inr d1 \<and> baseIDs e1 = baseIDs d1" by blast
  with d1 e1 s h show ?thesis by blast
qed

text \<open>
  C7 (as amended). \<^verbatim>\<open>FindMultiElement\<close> collects, in document order, every group
  strictly below the queried group whose element name is the given one and that has no
  such group among its proper ancestors (it does not test the queried group and does not
  descend into a match). For a match that no group with the element name precedes among
  the children of the queried group or of one of its ancestors below it, the chain
  returned is exactly the chain of ancestors from the queried group down to the match,
  root first. (The chain of a match that such a group precedes is left open here: see the
  remark at the counterexample.)
\<close>

theorem FindMultiElement_chains:
  "map last (FindMultiElement gp funky) =
     filter (unshadowed (allMatches [] gp funky)) (allMatches [] gp funky) \<and>
   (\<forall>c\<in>set (FindMultiElement gp funky).
      noEarlierMatch gp funky (last c) \<longrightarrow> c = prefixes (last c))"
proof -
  from multiSearch_exact(1)[of "[]" "[]" gp funky "[]"] obtain new where
    n: "FindMultiElement gp funky = new" "map last new = topMatches [] gp funky"
       "\<And>c rel. c \<in> set new \<Longrightarrow> last c = [] @ rel \<Longrightarrow> noEarlierMatch gp funky rel \<Longrightarrow>
          c = [] @ [] # below [] (last c)"
    by (auto simp: FindMultiElement_def)
  have "\<forall>c\<in>set new. noEarlierMatch gp funky (last c) \<longrightarrow> c = prefixes (last c)"
  proof (intro ballI impI)
    fix c assume c: "c \<in> set new" and ne: "noEarlierMatch gp funky (last c)"
    from n(3)[OF c _ ne] have "c = [] # tl (prefixes (last c))" by (simp add: below_root)
    then show "c = prefixes (last c)" using prefixes_hd[of "last c"] by simp
  qed
  with n(1) n(2) topMatches_filter(1)[of "[]" gp funky] show ?thesis by simp
qed

theorem FindMultiElement_chains_witness:
  "map last (FindMultiElement c7_clean ''x'') =
     filter (unshadowed (allMatches [] c7_clean ''x'')) (allMatches [] c7_clean ''x'') \<and>
   allMatches [] c7_clean ''x'' = [[0, 1], [1]] \<and>
   FindMultiElement c7_clean ''x'' = [[[], [0], [0, 1]], [[], [1]]] \<and>
   noEarlierMatch c7_clean ''x'' (last [[], [0], [0, 1]]) \<and>
   [[], [0], [0, 1]] = prefixes (last [[], [0], [0, 1::nat]])"
proof -
  have v: "FindMultiElement c7_clean ''x'' = [[[], [0], [0, 1]], [[], [1]]]" by code_simp
  have m: "[[], [0], [0, 1]] \<in> set (FindMultiElement c7_clean ''x'')" by (simp add: v)
  have a: "allMatches [] c7_clean ''x'' = [[0, 1], [1]]" by code_simp
  have c: "noEarlierMatch c7_clean ''x'' (last [[], [0], [0, 1]])" by code_simp
  from FindMultiElement_chains[of c7_clean "''x''"] m a c v show ?thesis by blast
qed

text \<open>
  C7 as stated fails on a group \<^verbatim>\<open>r\<close> with the children \<^verbatim>\<open>x[x]\<close> and \<^verbatim>\<open>x\<close>: the
  nested \<^verbatim>\<open>x\<close> at address \<open>[0, 0]\<close> is not collected, and the chain of the second
  child holds its sibling. The first follows from the \<^verbatim>\<open>continue\<close> after the recursive
  call, which is taken only for a group with another element name. The second comes
  from \<^verbatim>\<open>pos = append(pos, gPtr)\<close>, which is not undone before the next child is
  looked at; the sibling is no ancestor of the second child, and the chain is not the
  location that the comment of \<^verbatim>\<open>FindMultiElement\<close> announces (\<open>noEarlierMatch_c7_tree\<close>:
  the theorem above does not speak about this chain).
\<close>

theorem FindMultiElement_counterexample:
  "FindMultiElement c7_tree ''x'' = [[[], [0]], [[], [0], [1]]] \<and>
   FindAllByElement_spec c7_tree ''x'' = [[[], [0]], [[], [0], [0, 0]], [[], [1]]] \<and>
   FindMultiElement c7_tree ''x'' \<noteq> FindAllByElement_spec c7_tree ''x''"
proof -
  have v: "FindMultiElement c7_tree ''x'' = [[[], [0]], [[], [0], [1]]]" by code_simp
  have w: "FindAllByElement_spec c7_tree ''x'' = [[[], [0]], [[], [0], [0, 0]], [[], [1]]]"
    by code_simp
  show ?thesis unfolding v w by simp
qed

text \<open>
  C8 (as amended). \<^verbatim>\<open>FileToParts\<close> always returns, and it recognizes exactly the names
  that end with a codepoint of five lowercase hexadecimal digits, optionally followed by
  \<^verbatim>\<open>-\<close> and a suffix token made of a letter followed by letters and digits, and then
  \<^verbatim>\<open>.svg\<close>; anything may stand before the codepoint. It then returns the codepoint with
  its suffix, the number of the codepoint and the token. The token is not compared with
  the enumerated variant endings. For a name with nothing before the codepoint the three
  results are the name without \<^verbatim>\<open>.svg\<close>, the number of its codepoint and its token.
\<close>

theorem FileToParts_grammar:
  "(\<exists>r. FileToParts fileName = Inr r) \<and>
   (FileToParts fileName = Inr (idn, num, tok) \<and> idn \<noteq> [] \<longrightarrow>
      (\<exists>pre h suf. fileName = pre @ h @ suf @ ''.svg'' \<and> isHexID h \<and> isSuffix suf \<and>
         idn = h @ suf \<and> tok = tl suf \<and> HexIDToNum h = Inr num)) \<and>
   (isHexID h \<and> isSuffix suf \<longrightarrow>
      (\<exists>idn num tok. FileToParts (pre @ h @ suf @ ''.svg'') = Inr (idn, num, tok) \<and> idn \<noteq> [])) \<and>
   (isHexID h \<and> isToken t \<longrightarrow>
      (\<exists>num. HexIDToNum h = Inr num \<and>
         FileToParts (h @ ''.svg'') = Inr (h, num, []) \<and>
         FileToParts (h @ ''-'' @ t @ ''.svg'') = Inr (h @ ''-'' @ t, num, t)))"
proof (intro conjI impI)
  show "\<exists>r. FileToParts fileName = Inr r"
  proof (cases "FindStringSubmatch filePartRe fileName")
    case None
    then show ?thesis by (simp add: FileToParts_None)
  next
    case (Some c)
    from FileToParts_Some[OF Some] show ?thesis by blast
  qed
next
  assume a: "FileToParts fileName = Inr (idn, num, tok) \<and> idn \<noteq> []"
  show "\<exists>pre h suf. fileName = pre @ h @ suf @ ''.svg'' \<and> isHexID h \<and> isSuffix suf \<and>
         idn = h @ suf \<and> tok = tl suf \<and> HexIDToNum h = Inr num"
  proof (cases "FindStringSubmatch filePartRe fileName")
    case None
    from FileToParts_None[OF None] a show ?thesis by simp
  next
    case (Some c)
    from FileToParts_Some[OF Some] a show ?thesis by auto
  qed
next
  assume a: "isHexID h \<and> isSuffix suf"
  have "matchRe filePartRe (h @ suf @ ''.svg'') [] \<noteq> []"
  proof (cases "suf = []")
    case True
    with match_plain[of h] a show ?thesis by simp
  next
    case False
    with a obtain t where t: "suf = CHR ''-'' # t" "isToken t"
      by (cases suf) (auto simp: isSuffix_def)
    from match_variant[OF conjunct1[OF a] t(2)] t(1) show ?thesis by auto
  qed
  from find_complete[OF this, of pre] obtain c where
    c: "FindStringSubmatch filePartRe (pre @ h @ suf @ ''.svg'') = Some c" by blast
  from FileToParts_Some[OF c] obtain pre' h' suf' n where
    "isHexID h'" "FileToParts (pre @ h @ suf @ ''.svg'') = Inr (h' @ suf', n, tl suf')"
    by blast
  with hex_not_empty[of h']
  show "\<exists>idn num tok. FileToParts (pre @ h @ suf @ ''.svg'') = Inr (idn, num, tok) \<and> idn \<noteq> []"
    by (intro exI[of _ "h' @ suf'"] exI[of _ n] exI[of _ "tl suf'"]) simp
next
  assume a: "isHexID h \<and> isToken t"
  from HexIDToNum_hex[of h] a obtain n where n: "HexIDToNum h = Inr n" by blast
  have p: "FileToParts (h @ ''.svg'') = Inr (h, n, [])"
    using find_plain[of h] a n by (simp add: FileToParts_def submatch_def)
  have v: "FileToParts (h @ ''-'' @ t @ ''.svg'') = Inr (h @ ''-'' @ t, n, t)"
    using find_variant[of h t] a n by (simp add: FileToParts_def submatch_def)
  from n p v show "\<exists>num. HexIDToNum h = Inr num \<and>
         FileToParts (h @ ''.svg'') = Inr (h, num, []) \<and>
         FileToParts (h @ ''-'' @ t @ ''.svg'') = Inr (h @ ''-'' @ t, num, t)"
    by blast
qed

theorem FileToParts_grammar_witness:
  "FileToParts ''0f9a8-Kaisho.svg'' = Inr (''0f9a8-Kaisho'', 63912, ''Kaisho'') \<and>
   isHexID ''0f9a8'' \<and> isSuffix ''-Kaisho'' \<and> isToken ''Kaisho'' \<and>
   (\<exists>pre h suf. ''0f9a8-Kaisho.svg'' = pre @ h @ suf @ ''.svg'' \<and> isHexID h \<and> isSuffix suf \<and>
      ''0f9a8-Kaisho'' = h @ suf \<and> ''Kaisho'' = tl suf \<and> HexIDToNum h = Inr 63912) \<and>
   (\<exists>idn num tok. FileToParts (''kanji/'' @ ''0f9a8'' @ ''-Kaisho'' @ ''.svg'') = Inr (idn, num, tok) \<and>
      idn \<noteq> []) \<and>
   (\<exists>num. HexIDToNum ''0f9a8'' = Inr num \<and>
      FileToParts (''0f9a8'' @ ''.svg'') = Inr (''0f9a8'', num, []) \<and>
      FileToParts (''0f9a8'' @ ''-'' @ ''Kaisho'' @ ''.svg'') = Inr (''0f9a8'' @ ''-'' @ ''Kaisho'', num, ''Kaisho''))"
proof -
  have e: "FileToParts ''0f9a8-Kaisho.svg'' = Inr (''0f9a8-Kaisho'', 63912, ''Kaisho'')"
    by code_simp
  have ne: "''0f9a8-Kaisho'' \<noteq> []" by simp
  have h: "isHexID ''0f9a8''" by code_simp
  have u: "isSuffix ''-Kaisho''" by code_simp
  have k: "isToken ''Kaisho''" by code_simp
  note t = FileToParts_grammar[of "''0f9a8-Kaisho.svg''" "''0f9a8-Kaisho''" 63912 "''Kaisho''"
      "''0f9a8''" "''-Kaisho''" "''kanji/''" "''Kaisho''"]
  from t have t2: "FileToParts ''0f9a8-Kaisho.svg'' = Inr (''0f9a8-Kaisho'', 63912, ''Kaisho'') \<and>
      ''0f9a8-Kaisho'' \<noteq> [] \<longrightarrow>
      (\<exists>pre h suf. ''0f9a8-Kaisho.svg'' = pre @ h @ suf @ ''.svg'' \<and> isHexID h \<and> isSuffix suf \<and>
         ''0f9a8-Kaisho'' = h @ suf \<and> ''Kaisho'' = tl suf \<and> HexIDToNum h = Inr 63912)"
    by (rule conjunct1[OF conjunct2])
  from t have t3: "isHexID ''0f9a8'' \<and> isSuffix ''-Kaisho'' \<longrightarrow>
      (\<exists>idn num tok. FileToParts (''kanji/'' @ ''0f9a8'' @ ''-Kaisho'' @ ''.svg'') = Inr (idn, num, tok) \<and>
         idn \<noteq> [])"
    by (rule conjunct1[OF conjunct2[OF conjunct2]])
  from t have t4: "isHexID ''0f9a8'' \<and> isToken ''Kaisho'' \<longrightarrow>
      (\<exists>num. HexIDToNum ''0f9a8'' = Inr num \<and>
         FileToParts (''0f9a8'' @ ''.svg'') = Inr (''0f9a8'', num, []) \<and>
         FileToParts (''0f9a8'' @ ''-'' @ ''Kaisho'' @ ''.svg'') = Inr (''0f9a8'' @ ''-'' @ ''Kaisho'', num, ''Kaisho''))"
    by (rule conjunct2[OF conjunct2[OF conjunct2]])
  from mp[OF t2 conjI[OF e ne]] mp[OF t3 conjI[OF h u]] mp[OF t4 conjI[OF h k]] e h u k
  show ?thesis by (intro conjI)
qed

text \<open>
  C8 as stated fails: the suffix \<^verbatim>\<open>Foo\<close> is not among the enumerated variant endings
  and is returned as the suffix token all the same, and a name with a letter before the
  codepoint is recognized too.
\<close>

theorem FileToParts_unlisted_suffix_counterexample:
  "FileToParts ''09999-Foo.svg'' = Inr (''09999-Foo'', 39321, ''Foo'') \<and>
   ''Foo'' \<notin> set variantTokens \<and>
   FileToParts ''x09999.svg'' = Inr (''09999'', 39321, [])"
  by code_simp

text \<open>
  C9. When \<^verbatim>\<open>SetBase\<close> or \<^verbatim>\<open>RenumberXML\<close> returns, the result differs from the
  document it was given at most in identifiers of groups and paths, style attributes of
  groups and the content of the label texts: the number, order and flags of all children
  and every other attribute are unchanged.
\<close>

theorem renumbering_frame:
  "(SetBase kvg base = Inr kvg1 \<longrightarrow> eraseSVG kvg1 = eraseSVG kvg) \<and>
   (RenumberXML kvg = Inr kvg2 \<longrightarrow> eraseSVG kvg2 = eraseSVG kvg)"
  using SetBase_frame RenumberXML_frame by blast

theorem renumbering_frame_witness:
  "\<exists>k1 k2. SetBase c6_doc ''kvg:0abcd'' = Inr k1 \<and> eraseSVG k1 = eraseSVG c6_doc \<and>
     RenumberXML c6_doc = Inr k2 \<and> eraseSVG k2 = eraseSVG c6_doc"
proof -
  have b: "BaseGroup c6_doc = Inr c6_base" by code_simp
  have t: "2 \<le> length (Groups c6_doc)" by code_simp
  obtain cs1 st1 where
    "renumberChildren ''kvg:0abcd'' (Children c6_base) (0, 0) = (cs1, st1)"
    by (cases "renumberChildren ''kvg:0abcd'' (Children c6_base) (0, 0)")
  from SetBase_result[OF b _ _ this] obtain k1 where k1: "SetBase c6_doc ''kvg:0abcd'' = Inr k1"
    by auto
  obtain cs2 st2 where
    "renumberChildren (ID (Attrs c6_base)) (Children c6_base) (0, 0) = (cs2, st2)"
    by (cases "renumberChildren (ID (Attrs c6_base)) (Children c6_base) (0, 0)")
  from RenumberXML_result[OF b t this] obtain k2 where k2: "RenumberXML c6_doc = Inr k2"
    by blast
  from renumbering_frame[of c6_doc "''kvg:0abcd''" k1 k2] k1 k2 show ?thesis by blast
qed

text \<open>
  C10 (as amended). \<^verbatim>\<open>BaseGroup\<close> panics exactly when the document has no top-level
  group or the first top-level group has no children; otherwise it returns the
  \<^verbatim>\<open>Group\<close> field of the first child of the first top-level group without reading the
  child's flags. When that child is a path or a text as the decoder builds them, the
  field is the zero group: \<^verbatim>\<open>Base\<close> returns two empty strings, \<^verbatim>\<open>SetBase\<close> (with a base
  that starts with \<^verbatim>\<open>kvg:\<close>) returns after writing the base into that field, and
  \<^verbatim>\<open>RenumberXML\<close> (on a document with two top-level groups) returns, none of them
  reporting an error.
\<close>

theorem base_group_unchecked:
  "((\<exists>e. BaseGroup kvg = Inl e) \<longleftrightarrow>
      (Groups kvg = [] \<or> (\<exists>g gs. Groups kvg = g # gs \<and> Children g = []))) \<and>
   (Groups kvg = g # gs \<and> Children g = c # cs \<longrightarrow> BaseGroup kvg = Inr (Group c)) \<and>
   (Groups kvg = g # gs \<and> Children g = c # cs \<and> (c = pathChild p \<or> c = textChild t) \<longrightarrow>
      BaseGroup kvg = Inr zeroGroup \<and>
      Base kvg = Inr ([], []) \<and>
      (4 \<le> length base \<and> take 4 base = ''kvg:'' \<longrightarrow>
         (\<exists>kvg'. SetBase kvg base = Inr kvg' \<and> BaseGroup kvg' = Inr (setID base zeroGroup))) \<and>
      (2 \<le> length (Groups kvg) \<longrightarrow>
         (\<exists>kvg'. RenumberXML kvg = Inr kvg' \<and> BaseGroup kvg' = Inr zeroGroup)))"
proof (intro conjI impI)
  show "(\<exists>e. BaseGroup kvg = Inl e) \<longleftrightarrow>
      (Groups kvg = [] \<or> (\<exists>g gs. Groups kvg = g # gs \<and> Children g = []))"
    by (auto simp: BaseGroup_def split: list.splits)
next
  assume "Groups kvg = g # gs \<and> Children g = c # cs"
  then show "BaseGroup kvg = Inr (Group c)" by (simp add: BaseGroup_def)
next
  assume a: "Groups kvg = g # gs \<and> Children g = c # cs \<and> (c = pathChild p \<or> c = textChild t)"
  then have z: "Group c = zeroGroup" by auto
  with a show b: "BaseGroup kvg = Inr zeroGroup" by (simp add: BaseGroup_def)
  then show "Base kvg = Inr ([], [])" by (simp add: Base_def zeroGroup_def zeroAttrs_def)
  {
    assume pre: "4 \<le> length base \<and> take 4 base = ''kvg:''"
    have r: "renumberChildren base (Children zeroGroup) (0, 0) = ([], (0, 0))" by simp
    from SetBase_result[OF b _ _ r] pre
    show "\<exists>kvg'. SetBase kvg base = Inr kvg' \<and> BaseGroup kvg' = Inr (setID base zeroGroup)"
      by (simp add: setChildren_def setID_def zeroGroup_def)
  }
  {
    assume two: "2 \<le> length (Groups kvg)"
    have r: "renumberChildren (ID (Attrs zeroGroup)) (Children zeroGroup) (0, 0) = ([], (0, 0))" by simp
    from RenumberXML_result[OF b two r]
    show "\<exists>kvg'. RenumberXML kvg = Inr kvg' \<and> BaseGroup kvg' = Inr zeroGroup"
      by (simp add: setChildren_def zeroGroup_def)
  }
qed

theorem base_group_unchecked_witness:
  "Groups c10_doc = groupOf ''kvg:StrokePaths_09999'' [pathChild zeroPath] # [groupOf ''kvg:StrokeNumbers_09999'' []] \<and>
   Children (groupOf ''kvg:StrokePaths_09999'' [pathChild zeroPath]) = pathChild zeroPath # [] \<and>
   BaseGroup c10_doc = Inr zeroGroup \<and>
   Base c10_doc = Inr ([], []) \<and>
   (\<exists>kvg'. SetBase c10_doc ''kvg:09999'' = Inr kvg' \<and> BaseGroup kvg' = Inr (setID ''kvg:09999'' zeroGroup)) \<and>
   (\<exists>kvg'. RenumberXML c10_doc = Inr kvg' \<and> BaseGroup kvg' = Inr zeroGroup)"
proof -
  have h: "Groups c10_doc = groupOf ''kvg:StrokePaths_09999'' [pathChild zeroPath] # [groupOf ''kvg:StrokeNumbers_09999'' []]"
    "Children (groupOf ''kvg:StrokePaths_09999'' [pathChild zeroPath]) = pathChild zeroPath # []"
    by (simp_all add: c10_doc_def svgOf_def groupOf_def)
  have two: "2 \<le> length (Groups c10_doc)" by (simp add: h)
  have pre: "4 \<le> length ''kvg:09999'' \<and> take 4 ''kvg:09999'' = ''kvg:''" by simp
  note t = base_group_unchecked[of c10_doc "groupOf ''kvg:StrokePaths_09999'' [pathChild zeroPath]"
      "[groupOf ''kvg:StrokeNumbers_09999'' []]" "pathChild zeroPath" "[]" zeroPath zeroText "''kvg:09999''"]
  from t h two pre show ?thesis by simp
qed

text \<open>
  C10 as stated fails where it says that \<^verbatim>\<open>SetBase\<close> and \<^verbatim>\<open>RenumberXML\<close> go on
  without reporting an error whenever the first child is a path. On the document with
  the single top-level group \<^verbatim>\<open>[Path]\<close> the base group is the zero group and
  \<^verbatim>\<open>RenumberXML\<close> panics at \<^verbatim>\<open>kvg.Groups[1]\<close>; on the same document with a second
  top-level group, \<^verbatim>\<open>SetBase\<close> with the base \<^verbatim>\<open>09999\<close> ends the program with the
  message of \<^verbatim>\<open>log.Fatalf\<close> before it reads the base group.
\<close>

theorem base_group_renumber_counterexample:
  "BaseGroup c10_single = Inr zeroGroup \<and>
   RenumberXML c10_single = Inl IndexOutOfRange \<and>
   BaseGroup c10_doc = Inr zeroGroup \<and>
   SetBase c10_doc ''09999'' = Inl (FatalExit (fatalBaseName ''09999''))"
proof -
  have a: "BaseGroup c10_single = Inr zeroGroup" by code_simp
  have b: "RenumberXML c10_single = Inl IndexOutOfRange" by code_simp
  have c: "BaseGroup c10_doc = Inr zeroGroup" by code_simp
  have d: "SetBase c10_doc ''09999'' = Inl (FatalExit (fatalBaseName ''09999''))" by code_simp
  from a b c d show ?thesis by simp
qed

end
